theory Spec2Isabelle
  imports Complex_Main "HOL-Library.List_Lexorder" "HOL-Library.Char_ord"
    "HOL-Library.Multiset" "HOL-Library.Log_Nat"
begin

section \<open>Python values used by \<^verbatim>\<open>functions/utils.py\<close>\<close>

text \<open>
  The module is Python 3 on top of pandas and numpy.  Exceptions are values of the
  type \<open>error\<close>; a function that can raise returns \<open>error + 'a\<close> with \<open>Inl\<close> for
  the exception.  \<open>ReindexError\<close> is the exception pandas raises when it has to align a
  series with repeated labels to another index.  \<open>Unmodelled\<close> is no exception: it marks
  the inputs of \<^verbatim>\<open>pivot_vectors\<close> on which the behaviour of pandas is left out of
  this development.  Text is a \<open>string\<close>, each \<open>char\<close> read as one code point below
  256.
\<close>

datatype error = IndexError | KeyError | ReindexError | Unmodelled

abbreviation TAB :: char where
  "TAB \<equiv> CHR 0x09"

text \<open>\<^verbatim>\<open>str.isspace\<close> on the code points below 256: U+0009..U+000D, U+001C..U+0020,
  U+0085 and U+00A0.\<close>

definition isspace :: "char \<Rightarrow> bool" where
  "isspace c = (of_char c \<in> {9, 10, 11, 12, 13, 28, 29, 30, 31, 32, 133, 160 :: nat})"

text \<open>\<^verbatim>\<open>s.strip()\<close>: leading and trailing whitespace removed.\<close>

definition strip :: "string \<Rightarrow> string" where
  "strip s = rev (dropWhile isspace (rev (dropWhile isspace s)))"

text \<open>\<^verbatim>\<open>s.split(sep)\<close> for a one-character separator: every occurrence splits, empty
  fields are kept, and the empty string gives one empty field.\<close>

fun split :: "char \<Rightarrow> string \<Rightarrow> string list" where
  "split sep [] = [[]]"
| "split sep (c # cs) =
     (if c = sep then [] # split sep cs
      else (case split sep cs of [] \<Rightarrow> [[c]] | f # fs \<Rightarrow> (c # f) # fs))"

text \<open>\<^verbatim>\<open>sep.join(xs)\<close>.\<close>

fun join :: "string \<Rightarrow> string list \<Rightarrow> string" where
  "join sep [] = []"
| "join sep [x] = x"
| "join sep (x # y # ys) = x @ sep @ join sep (y # ys)"

text \<open>
  A Python \<^verbatim>\<open>set\<close> is a finite HOL set.  Iterating over it (\<^verbatim>\<open>list(s)\<close>, a
  \<^verbatim>\<open>for\<close> loop, \<^verbatim>\<open>join\<close>) visits every element once, in an order fixed by
  the interpreter's hashing.  That order is the parameter \<open>it\<close> of every function below
  that iterates over a set; \<open>set_iteration it\<close> says what Python guarantees of it.
\<close>

definition set_iteration :: "('a set \<Rightarrow> 'a list) \<Rightarrow> bool" where
  "set_iteration it \<longleftrightarrow> (\<forall>S. finite S \<longrightarrow> set (it S) = S \<and> distinct (it S))"

text \<open>
  An iterable argument: a list (or tuple), a set, or a one-shot iterator (a generator, a
  file, \<^verbatim>\<open>iter(xs)\<close>) that still has the given items to yield.  A pass over a list or
  a set leaves it as it was; a pass over an iterator leaves it exhausted.
\<close>

datatype 'a iterable = PyList "'a list" | PySet "'a set" | PyIter "'a list"

text \<open>\<^verbatim>\<open>set(genes)\<close> and \<^verbatim>\<open>list(genes)\<close>: the value built, and the argument as the
  pass over it leaves it.\<close>

fun py_set :: "'a iterable \<Rightarrow> 'a set \<times> 'a iterable" where
  "py_set (PyList xs) = (set xs, PyList xs)"
| "py_set (PySet S) = (S, PySet S)"
| "py_set (PyIter xs) = (set xs, PyIter [])"

fun py_list :: "('a set \<Rightarrow> 'a list) \<Rightarrow> 'a iterable \<Rightarrow> 'a list \<times> 'a iterable" where
  "py_list it (PyList xs) = (xs, PyList xs)"
| "py_list it (PySet S) = (it S, PySet S)"
| "py_list it (PyIter xs) = (xs, PyIter [])"



section \<open>Gene sets\<close>

text \<open>\<^verbatim>\<open>class GeneSet\<close>: the four attributes \<^verbatim>\<open>__init__\<close> assigns, \<^verbatim>\<open>genes\<close> from
  a first pass over the argument and \<^verbatim>\<open>genes_ordered\<close> from a second.\<close>

record GeneSet =
  name :: string
  descr :: string
  genes :: "string set"
  genes_ordered :: "string list"

definition GeneSet_init ::
  "(string set \<Rightarrow> string list) \<Rightarrow> string \<Rightarrow> string \<Rightarrow> string iterable \<Rightarrow> GeneSet" where
  "GeneSet_init it n d gs =
     (let (s, gs1) = py_set gs;
          (l, gs2) = py_list it gs1
      in \<lparr>name = n, descr = d, genes = s, genes_ordered = l\<rparr>)"



text \<open>
  \<^verbatim>\<open>read_gene_sets\<close>.  The file is the list of its lines as the file iterator yields
  them (each with its line terminator).  \<open>read_lines\<close> is the \<^verbatim>\<open>for\<close> loop, with the
  dictionary \<^verbatim>\<open>gene_sets\<close> built so far; \<^verbatim>\<open>items[1]\<close> raises \<^verbatim>\<open>IndexError\<close> when
  the stripped line has a single field.
\<close>

fun read_lines ::
  "(string set \<Rightarrow> string list) \<Rightarrow> (string \<rightharpoonup> GeneSet) \<Rightarrow> string list \<Rightarrow>
     error + (string \<rightharpoonup> GeneSet)" where
  "read_lines it gene_sets [] = Inr gene_sets"
| "read_lines it gene_sets (line # rest) =
     (case split TAB (strip line) of
        i0 # i1 # members \<Rightarrow>
          read_lines it
            (gene_sets(strip i0 \<mapsto>
               GeneSet_init it (strip i0) (strip i1) (PySet (set (map strip members)))))
            rest
      | _ \<Rightarrow> Inl IndexError)"

definition read_gene_sets ::
  "(string set \<Rightarrow> string list) \<Rightarrow> string list \<Rightarrow> error + (string \<rightharpoonup> GeneSet)" where
  "read_gene_sets it lines = read_lines it Map.empty lines"


section \<open>Aligning tables on their common samples\<close>

text \<open>
  A pandas \<^verbatim>\<open>Series\<close> or \<^verbatim>\<open>DataFrame\<close> is the list of its rows, each the index
  label with the row's content; labels may repeat.  \<open>index\<close> is \<^verbatim>\<open>df.index\<close>,
  \<open>rows_at df k\<close> the rows \<^verbatim>\<open>df.loc[k]\<close> selects for one label, and \<open>loc df ks\<close> is
  \<^verbatim>\<open>df.loc[ks]\<close> for a list of labels: the rows of each label in the order of \<open>ks\<close>,
  \<^verbatim>\<open>KeyError\<close> when a label is not in the index.
\<close>

type_synonym ('k, 'v) frame = "('k \<times> 'v) list"

definition index :: "('k, 'v) frame \<Rightarrow> 'k list" where
  "index df = map fst df"

definition rows_at :: "('k, 'v) frame \<Rightarrow> 'k \<Rightarrow> ('k, 'v) frame" where
  "rows_at df k = filter (\<lambda>r. fst r = k) df"

definition loc :: "('k, 'v) frame \<Rightarrow> 'k list \<Rightarrow> error + ('k, 'v) frame" where
  "loc df ks =
     (if set ks \<subseteq> set (index df) then Inr (concat (map (rows_at df) ks)) else Inl KeyError)"

text \<open>The loop \<^verbatim>\<open>for i in range(1, len(df_list)): cs = cs.intersection(df_list[i].index)\<close>
  over the tables after the first.\<close>

fun common_index :: "'k set \<Rightarrow> ('k, 'v) frame list \<Rightarrow> 'k set" where
  "common_index cs [] = cs"
| "common_index cs (df # dfs) = common_index (cs \<inter> set (index df)) dfs"

text \<open>A list comprehension whose elements can raise: the first exception ends it.\<close>

fun collect :: "(error + 'a) list \<Rightarrow> error + 'a list" where
  "collect [] = Inr []"
| "collect (Inl e # rs) = Inl e"
| "collect (Inr x # rs) = (case collect rs of Inl e \<Rightarrow> Inl e | Inr xs \<Rightarrow> Inr (x # xs))"

text \<open>
  \<^verbatim>\<open>to_common_samples\<close>.  \<^verbatim>\<open>df_list[0]\<close> raises \<^verbatim>\<open>IndexError\<close> on the empty
  list.  \<^verbatim>\<open>warnings.warn\<close> (under the default warning filter) records a message and
  returns; the messages issued are the first component of the result.
\<close>

definition to_common_samples ::
  "('k set \<Rightarrow> 'k list) \<Rightarrow> ('k, 'v) frame list \<Rightarrow>
     error + (string list \<times> ('k, 'v) frame list)" where
  "to_common_samples it df_list =
     (case df_list of
        [] \<Rightarrow> Inl IndexError
      | df0 # rest \<Rightarrow>
          (let cs = common_index (set (index df0)) rest;
               warned = (if card cs < 1 then [''No common samples!''] else [])
           in case collect (map (\<lambda>df. loc df (it cs)) df_list) of
                Inl e \<Rightarrow> Inl e
              | Inr outs \<Rightarrow> Inr (warned, outs)))"

text \<open>The intersection of all key sets, as the specification words it.\<close>

definition common_keys :: "('k, 'v) frame list \<Rightarrow> 'k set" where
  "common_keys df_list = (\<Inter>df\<in>set df_list. set (index df))"


section \<open>Floating-point numbers\<close>

text \<open>
  A numpy \<^verbatim>\<open>float64\<close> is NaN, one of the two infinities, or \<open>Fin q\<close> for the rational
  \<open>q\<close> it stands for (the two zeros are one value: they compare equal, and no operation
  used here tells them apart).  An arithmetic operation on finite values returns the
  exact result rounded to the nearest \<^verbatim>\<open>float64\<close>, ties to the even significand:
  \<open>round53\<close> rounds to a 53-bit significand, with the spacing \<open>2\<^sup>-\<^sup>1\<^sup>0\<^sup>7\<^sup>4\<close> of the subnormal
  numbers below \<open>2\<^sup>-\<^sup>1\<^sup>0\<^sup>2\<^sup>2\<close>, and \<open>pack\<close> gives an infinity when the rounded magnitude
  reaches \<open>2\<^sup>1\<^sup>0\<^sup>2\<^sup>4\<close>, that is when its binary exponent is 1024 or more.  \<open>ilog2 x\<close> is the
  binary exponent \<open>\<lfloor>log\<^sub>2 x\<rfloor>\<close> of a positive \<open>x\<close>.
\<close>

definition ilog2 :: "rat \<Rightarrow> int" where
  "ilog2 x = (case quotient_of x of (p, q) \<Rightarrow>
     (let e = bitlen p - bitlen q in if 2 powi e \<le> x then e else e - 1))"

definition round_half_even :: "rat \<Rightarrow> int" where
  "round_half_even m =
     (let f = \<lfloor>m\<rfloor>; d = m - of_int f
      in if d < 1 / 2 then f else if 1 / 2 < d then f + 1 else if even f then f else f + 1)"

definition round53 :: "rat \<Rightarrow> rat" where
  "round53 x =
     (if x = 0 then 0
      else (let u = 2 powi (max (ilog2 \<bar>x\<bar>) (- 1022) - 52)
            in sgn x * of_int (round_half_even (\<bar>x\<bar> / u)) * u))"

datatype float = NaN | NegInf | Fin rat | PosInf

definition pack :: "rat \<Rightarrow> float" where
  "pack q =
     (let r = round53 q
      in if ilog2 \<bar>r\<bar> < 1024 then Fin r else if 0 < r then PosInf else NegInf)"

text \<open>
  The operations on NaN and the infinities, as IEEE 754 has them: an operation on NaN
  gives NaN, and so do \<^verbatim>\<open>inf - inf\<close> and \<^verbatim>\<open>inf * 0\<close>; a comparison with NaN is
  false.
\<close>

fun fneg :: "float \<Rightarrow> float" where
  "fneg NaN = NaN"
| "fneg NegInf = PosInf"
| "fneg (Fin x) = Fin (- x)"
| "fneg PosInf = NegInf"

fun fadd :: "float \<Rightarrow> float \<Rightarrow> float" where
  "fadd (Fin x) (Fin y) = pack (x + y)"
| "fadd NaN b = NaN"
| "fadd a NaN = NaN"
| "fadd PosInf NegInf = NaN"
| "fadd NegInf PosInf = NaN"
| "fadd (Fin x) b = b"
| "fadd a b = a"

definition fsub :: "float \<Rightarrow> float \<Rightarrow> float" where
  "fsub a b = fadd a (fneg b)"

fun fmul :: "float \<Rightarrow> float \<Rightarrow> float" where
  "fmul (Fin x) (Fin y) = pack (x * y)"
| "fmul NaN b = NaN"
| "fmul a NaN = NaN"
| "fmul (Fin x) b = (if x = 0 then NaN else if (0 < x) = (b = PosInf) then PosInf else NegInf)"
| "fmul a (Fin y) = (if y = 0 then NaN else if (0 < y) = (a = PosInf) then PosInf else NegInf)"
| "fmul a b = (if a = b then PosInf else NegInf)"

fun fle :: "float \<Rightarrow> float \<Rightarrow> bool" where
  "fle (Fin x) (Fin y) = (x \<le> y)"
| "fle NaN b = False"
| "fle a NaN = False"
| "fle NegInf b = True"
| "fle a PosInf = True"
| "fle a b = False"

fun flt :: "float \<Rightarrow> float \<Rightarrow> bool" where
  "flt (Fin x) (Fin y) = (x < y)"
| "flt NaN b = False"
| "flt a NaN = False"
| "flt PosInf b = False"
| "flt a NegInf = False"
| "flt a b = True"

text \<open>The rationals that are \<^verbatim>\<open>float64\<close> values, which rounding leaves as they are, and the
  \<^verbatim>\<open>float64\<close> a decimal literal such as \<^verbatim>\<open>0.3\<close> denotes: the nearest one.\<close>

definition is_float64 :: "rat \<Rightarrow> bool" where
  "is_float64 x \<longleftrightarrow> pack x = Fin x"

definition float64 :: "rat \<Rightarrow> float" where
  "float64 q = pack q"


section \<open>Labelling samples by linear ranges\<close>

text \<open>
  A numeric \<^verbatim>\<open>Series\<close> is a table of \<^verbatim>\<open>float64\<close> values.  \<^verbatim>\<open>data.max()\<close> and
  \<^verbatim>\<open>data.min()\<close> skip NaN and are NaN when no value is left.  An integer series is
  read as the \<^verbatim>\<open>float64\<close> series of the same values: on whole numbers below \<open>2\<^sup>5\<^sup>2\<close> in
  magnitude the integer and mixed operations of numpy return the same numbers.
\<close>

definition present :: "('k, float) frame \<Rightarrow> float list" where
  "present data = filter (\<lambda>v. v \<noteq> NaN) (map snd data)"

definition fmax :: "float \<Rightarrow> float \<Rightarrow> float" where
  "fmax a b = (if fle a b then b else a)"

definition fmin :: "float \<Rightarrow> float \<Rightarrow> float" where
  "fmin a b = (if fle b a then b else a)"

definition series_max :: "('k, float) frame \<Rightarrow> float" where
  "series_max data = (case present data of [] \<Rightarrow> NaN | x # xs \<Rightarrow> fold fmax xs x)"

definition series_min :: "('k, float) frame \<Rightarrow> float" where
  "series_min data = (case present data of [] \<Rightarrow> NaN | x # xs \<Rightarrow> fold fmin xs x)"

text \<open>
  The cut value \<^verbatim>\<open>tr\<close> is the Python \<^verbatim>\<open>int\<close> 0 before the loop and takes the
  elements of \<^verbatim>\<open>list(np.sort(ps)) + [1]\<close>: \<^verbatim>\<open>float64\<close> numbers, then the
  \<^verbatim>\<open>int\<close> 1.  \<^verbatim>\<open>'{}'.format\<close> prints the two kinds differently.
\<close>

datatype num = PyInt int | PyFloat rat

fun num_val :: "num \<Rightarrow> rat" where
  "num_val (PyInt i) = of_int i"
| "num_val (PyFloat q) = q"

text \<open>\<^verbatim>\<open>str\<close> of an \<^verbatim>\<open>int\<close>: its decimal digits.\<close>

definition digit :: "nat \<Rightarrow> char" where
  "digit d = char_of (48 + d)"

fun digits :: "nat \<Rightarrow> string" where
  "digits n = (if n < 10 then [digit n] else digits (n div 10) @ [digit (n mod 10)])"

declare digits.simps [simp del]

definition str_int :: "int \<Rightarrow> string" where
  "str_int i = (if i < 0 then CHR ''-'' # digits (nat (- i)) else digits (nat i))"

text \<open>
  \<^verbatim>\<open>'{}'.format(x)\<close>.  For a \<^verbatim>\<open>float64\<close> it is the interpreter's shortest decimal
  that reads back as the same number, the parameter \<open>fr\<close>.  \<open>repr_decimal\<close> prints the
  decimal expansion of the value; it is that text for a \<^verbatim>\<open>float64\<close> whose expansion
  has at most 15 significant digits and which lies between \<open>10\<^sup>-\<^sup>4\<close> and \<open>10\<^sup>1\<^sup>6\<close> in
  magnitude, such as \<open>0.5\<close>.
\<close>

fun py_str :: "(rat \<Rightarrow> string) \<Rightarrow> num \<Rightarrow> string" where
  "py_str fr (PyInt i) = str_int i"
| "py_str fr (PyFloat q) = fr q"

fun frac_digits :: "nat \<Rightarrow> rat \<Rightarrow> string" where
  "frac_digits 0 f = []"
| "frac_digits (Suc n) f =
     (let d = \<lfloor>f * 10\<rfloor>; f' = f * 10 - of_int d
      in digit (nat d) # (if f' = 0 then [] else frac_digits n f'))"

definition repr_decimal :: "rat \<Rightarrow> string" where
  "repr_decimal q =
     (if q < 0 then ''-'' else '''') @ digits (nat \<lfloor>\<bar>q\<bar>\<rfloor>) @ ''.'' @
       frac_digits 17 (\<bar>q\<bar> - of_int \<lfloor>\<bar>q\<bar>\<rfloor>)"

text \<open>The label \<^verbatim>\<open>'{}p<x<{}p'.format(tr, tr2)\<close>.\<close>

definition label :: "(rat \<Rightarrow> string) \<Rightarrow> num \<Rightarrow> num \<Rightarrow> string" where
  "label fr tr tr2 = py_str fr tr @ ''p<x<'' @ py_str fr tr2 @ ''p''"

text \<open>The threshold \<^verbatim>\<open>data.min() + data_range * tr\<close>.\<close>

definition threshold :: "('k, float) frame \<Rightarrow> float \<Rightarrow> num \<Rightarrow> float" where
  "threshold data data_range tr = fadd (series_min data) (fmul data_range (Fin (num_val tr)))"

text \<open>
  The loop of \<^verbatim>\<open>to_linear_ranges\<close> over the cuts, from the previous cut \<open>tr\<close>: the
  list \<^verbatim>\<open>ann\<close> of labelled groups it appends, in order.  The first test is inclusive
  at both ends when \<^verbatim>\<open>tr == 0\<close>, exclusive below otherwise.
\<close>

fun ranges_loop ::
  "(rat \<Rightarrow> string) \<Rightarrow> ('k, float) frame \<Rightarrow> float \<Rightarrow> num \<Rightarrow> num list \<Rightarrow>
     ('k, string) frame list" where
  "ranges_loop fr data data_range tr [] = []"
| "ranges_loop fr data data_range tr (tr2 # cuts) =
     (let lo = threshold data data_range tr;
          hi = threshold data data_range tr2;
          x = (if num_val tr = 0
               then index (filter (\<lambda>(k, v). fle lo v \<and> fle v hi) data)
               else index (filter (\<lambda>(k, v). flt lo v \<and> fle v hi) data))
      in map (\<lambda>k. (k, label fr tr tr2)) x # ranges_loop fr data data_range tr2 cuts)"

text \<open>\<^verbatim>\<open>to_linear_ranges\<close>: \<^verbatim>\<open>pd.concat(ann)\<close> of the groups.\<close>

definition to_linear_ranges ::
  "(rat \<Rightarrow> string) \<Rightarrow> ('k, float) frame \<Rightarrow> rat list \<Rightarrow> ('k, string) frame" where
  "to_linear_ranges fr data ps =
     (let data_range = fsub (series_max data) (series_min data)
      in concat (ranges_loop fr data data_range (PyInt 0) (map PyFloat (sort ps) @ [PyInt 1])))"

text \<open>
  What the claims say of a series.  \<open>float64_values\<close>: every rational under \<open>Fin\<close> is a
  \<^verbatim>\<open>float64\<close> number, as the values of a series of numpy are.  \<open>no_nan\<close>: no value is
  NaN.  \<open>samples out l\<close>: the samples that carry the label \<open>l\<close> in a result.
  \<open>cut_at m r c\<close> is the threshold at cut \<open>c\<close> when the minimum is \<open>m\<close> and the range \<open>r\<close>,
  both finite, and nothing overflows.
\<close>

definition float64_values :: "('k, float) frame \<Rightarrow> bool" where
  "float64_values data \<longleftrightarrow>
     list_all (\<lambda>(k, v). case v of Fin x \<Rightarrow> is_float64 x | _ \<Rightarrow> True) data"

definition no_nan :: "('k, float) frame \<Rightarrow> bool" where
  "no_nan data \<longleftrightarrow> list_all (\<lambda>(k, v). v \<noteq> NaN) data"

definition samples :: "('k, string) frame \<Rightarrow> string \<Rightarrow> 'k set" where
  "samples out l = set (index (filter (\<lambda>(k, l'). l' = l) out))"

definition cut_at :: "rat \<Rightarrow> rat \<Rightarrow> rat \<Rightarrow> rat" where
  "cut_at m r c = round53 (m + round53 (r * c))"


section \<open>Counting pairs of values\<close>

text \<open>
  A named \<^verbatim>\<open>Series\<close>: its \<^verbatim>\<open>name\<close> (\<open>None\<close> when unnamed) and its rows; a value is
  \<open>None\<close> when missing (NaN or \<^verbatim>\<open>None\<close>).
\<close>

record ('k, 'v) series =
  sname :: "string option"
  svalues :: "('k, 'v option) frame"

text \<open>
  \<^verbatim>\<open>item_series(item, indexed)\<close>.  The argument is an object with an index, an
  \<^verbatim>\<open>int\<close>, or anything else (\<^verbatim>\<open>None\<close> included).  The labels of the result are the
  labels of that index, or the positions \<^verbatim>\<open>np.arange(indexed)\<close>.
\<close>

datatype 'k indexed = HasIndex "'k list" | IntSize int | Other

fun item_series :: "'a \<Rightarrow> 'k indexed \<Rightarrow> ('k + nat, 'a) frame" where
  "item_series item (HasIndex idx) = map (\<lambda>k. (Inl k, item)) idx"
| "item_series item (IntSize n) = (if 0 < n then map (\<lambda>i. (Inr i, item)) [0..<nat n] else [])"
| "item_series item Other = []"

text \<open>\<^verbatim>\<open>str(vec.name)\<close>, replaced by the default when the name is \<^verbatim>\<open>None\<close>.\<close>

definition col_name :: "string \<Rightarrow> ('k, 'v) series \<Rightarrow> string" where
  "col_name d vec = (case sname vec of None \<Rightarrow> d | Some n \<Rightarrow> n)"

text \<open>
  \<^verbatim>\<open>pd.DataFrame({name1: vec1, name2: vec2})\<close> for two different names: a row holds the
  values of both series.  Series with the same index are paired row by row.  Otherwise
  pandas aligns them on the union of the labels, a label missing from one series giving
  a missing value there, and refuses when a series repeats a label.  (pandas sorts the
  union where it can; the order of the rows has no effect on the counts below.)
\<close>

definition value_at :: "('k, 'v option) frame \<Rightarrow> 'k \<Rightarrow> 'v option" where
  "value_at s k = (case map_of s k of None \<Rightarrow> None | Some v \<Rightarrow> v)"

definition DataFrame2 ::
  "('k, 'v option) frame \<Rightarrow> ('k, 'v option) frame \<Rightarrow>
     error + ('k, 'v option \<times> 'v option) frame" where
  "DataFrame2 a b =
     (if index a = index b then Inr (map (\<lambda>((k, x), (k', y)). (k, (x, y))) (zip a b))
      else if distinct (index a) \<and> distinct (index b)
      then Inr (map (\<lambda>k. (k, (value_at a k, value_at b k))) (remdups (index a @ index b)))
      else Inl ReindexError)"

text \<open>
  \<^verbatim>\<open>sub_df.assign(N=...)\<close> with a series built on the frame's own index: row \<open>i\<close> gets
  element \<open>i\<close>.
\<close>

definition assign_N ::
  "('k, 'v option \<times> 'v option) frame \<Rightarrow> ('k + nat, int) frame \<Rightarrow>
     ('k, 'v option \<times> 'v option \<times> int) frame" where
  "assign_N df ns = map (\<lambda>((k, (x, y)), (k', n)). (k, (x, y, n))) (zip df ns)"

text \<open>
  \<^verbatim>\<open>pd.pivot_table(data, columns=name1, index=name2, values='N', aggfunc=sum)\<close>.
  Grouping drops every row with a missing key; \<open>groups\<close> lists the rows left as (row
  key, column key, \<^verbatim>\<open>N\<close>).  The table has the sorted keys on both axes and, in each
  cell, the sum of \<^verbatim>\<open>N\<close> over the group, or a missing value when the group is empty.
\<close>

definition groups :: "('k, 'v option \<times> 'v option \<times> int) frame \<Rightarrow> ('v \<times> 'v \<times> int) list" where
  "groups df = List.map_filter
     (\<lambda>(k, (x, y, n)). case (x, y) of (Some c, Some r) \<Rightarrow> Some (r, c, n) | _ \<Rightarrow> None) df"

record ('v, 'c) pivot =
  columns_name :: string
  index_name :: string
  row_labels :: "'v list"
  col_labels :: "'v list"
  cell_values :: "'c list list"

definition pivot_table ::
  "('k, 'v option \<times> 'v option \<times> int) frame \<Rightarrow> string \<Rightarrow> string \<Rightarrow>
     ('v::linorder, int option) pivot" where
  "pivot_table df columns idx =
     (let g = groups df;
          rs = sort (remdups (map fst g));
          cs = sort (remdups (map (fst \<circ> snd) g))
      in \<lparr>columns_name = columns, index_name = idx, row_labels = rs, col_labels = cs,
          cell_values = map (\<lambda>r. map (\<lambda>c.
              (case filter (\<lambda>(r', c', n). r' = r \<and> c' = c) g of
                 [] \<Rightarrow> None
               | ns \<Rightarrow> Some (sum_list (map (snd \<circ> snd) ns)))) cs) rs\<rparr>)"

text \<open>\<^verbatim>\<open>.fillna(z)\<close>; the \<^verbatim>\<open>.astype(int)\<close> that follows leaves whole numbers as they are.\<close>

definition fillna :: "int \<Rightarrow> ('v, int option) pivot \<Rightarrow> ('v, int) pivot" where
  "fillna z t =
     \<lparr>columns_name = columns_name t, index_name = index_name t,
      row_labels = row_labels t, col_labels = col_labels t,
      cell_values = map (map (\<lambda>v. case v of None \<Rightarrow> z | Some n \<Rightarrow> n)) (cell_values t)\<rparr>"

text \<open>
  \<^verbatim>\<open>pivot_vectors\<close>.  When the two names are equal, or one is \<^verbatim>\<open>'N'\<close>, the frame has
  fewer than three columns (the dictionary or \<^verbatim>\<open>assign\<close> overwrites one); what
  \<^verbatim>\<open>pivot_table\<close> makes of such a frame is not modelled.
\<close>

definition pivot_vectors ::
  "('k, 'v::linorder) series \<Rightarrow> ('k, 'v) series \<Rightarrow> error + ('v, int) pivot" where
  "pivot_vectors vec1 vec2 =
     (let name1 = col_name ''V1'' vec1;
          name2 = col_name ''V2'' vec2
      in if name1 = name2 \<or> name1 = ''N'' \<or> name2 = ''N'' then Inl Unmodelled
         else (case DataFrame2 (svalues vec1) (svalues vec2) of
                 Inl e \<Rightarrow> Inl e
               | Inr sub_df \<Rightarrow>
                   Inr (fillna 0 (pivot_table
                     (assign_N sub_df (item_series 1 (HasIndex (index sub_df)))) name1 name2))))"

text \<open>
  What the claims say of two series: the pairs of values at the same position, how many
  samples hold the value \<open>c\<close> in the first and \<open>r\<close> in the second, and that no value is
  missing.  \<open>complete_rows n ps\<close> lists the pairs with both values present, as
  \<open>groups\<close> does.
\<close>

definition paired :: "('k, 'v) series \<Rightarrow> ('k, 'v) series \<Rightarrow> ('v option \<times> 'v option) list" where
  "paired vec1 vec2 = zip (map snd (svalues vec1)) (map snd (svalues vec2))"

definition co_count :: "('k, 'v) series \<Rightarrow> ('k, 'v) series \<Rightarrow> 'v \<Rightarrow> 'v \<Rightarrow> nat" where
  "co_count vec1 vec2 c r =
     length (filter (\<lambda>(x, y). x = Some c \<and> y = Some r) (paired vec1 vec2))"

definition no_missing :: "('k, 'v) series \<Rightarrow> bool" where
  "no_missing vec \<longleftrightarrow> list_all (\<lambda>(k, v). v \<noteq> None) (svalues vec)"

definition complete_rows :: "int \<Rightarrow> ('v option \<times> 'v option) list \<Rightarrow> ('v \<times> 'v \<times> int) list" where
  "complete_rows n ps =
     List.map_filter (\<lambda>(x, y). case (x, y) of (Some c, Some r) \<Rightarrow> Some (r, c, n) | _ \<Rightarrow> None) ps"


section \<open>Facts about the Python values\<close>

lemma set_iteration_set: "set_iteration it \<Longrightarrow> finite S \<Longrightarrow> set (it S) = S"
  by (simp add: set_iteration_def)

lemma set_iteration_distinct: "set_iteration it \<Longrightarrow> finite S \<Longrightarrow> distinct (it S)"
  by (simp add: set_iteration_def)

lemma set_iteration_empty: "set_iteration it \<Longrightarrow> it {} = []"
  using set_iteration_set [of it "{}"] by simp

lemma set_iteration_length: "set_iteration it \<Longrightarrow> finite S \<Longrightarrow> length (it S) = card S"
  using distinct_card [of "it S"] by (simp add: set_iteration_def)

lemma set_iteration_sorted: "set_iteration (sorted_list_of_set :: 'a::linorder set \<Rightarrow> 'a list)"
  by (simp add: set_iteration_def)

lemma set_iteration_rev_sorted:
  "set_iteration (\<lambda>S :: 'a::linorder set. rev (sorted_list_of_set S))"
  by (simp add: set_iteration_def)

lemma split_not_Nil: "split sep s \<noteq> []"
  by (induction s) (auto split: list.splits)


section \<open>Facts about gene sets\<close>

lemma read_lines_append:
  "read_lines it gs (ls @ ms) =
     (case read_lines it gs ls of Inl e \<Rightarrow> Inl e | Inr gs' \<Rightarrow> read_lines it gs' ms)"
  by (induction ls arbitrary: gs) (auto split: list.splits)

lemma GeneSet_init_PySet:
  "GeneSet_init it n d (PySet S) = \<lparr>name = n, descr = d, genes = S, genes_ordered = it S\<rparr>"
  by (simp add: GeneSet_init_def)




text \<open>
  Claim C1, as the specification states it, fails: \<^verbatim>\<open>read_gene_sets\<close> has no check of
  the number of fields and no \<^verbatim>\<open>FormatError\<close>.  The line
  \<^verbatim>\<open>"SET2\tonly_description"\<close> is accepted and stored as a gene set with no members.
\<close>

theorem read_gene_sets_two_fields_counterexample:
  "read_gene_sets sorted_list_of_set [join [TAB] [''SET2'', ''only_description'']] =
     Inr [''SET2'' \<mapsto>
       \<lparr>name = ''SET2'', descr = ''only_description'', genes = {}, genes_ordered = []\<rparr>]"
  by (simp add: read_gene_sets_def strip_def isspace_def GeneSet_init_PySet)

text \<open>
  Claim C1, amended.  A line whose text, stripped of surrounding whitespace, has exactly
  two tab-separated fields does not fail: after the lines read before it, the catalogue
  gains (or overwrites) the entry of that name, with the description and no members.
\<close>

theorem read_gene_sets_two_fields:
  assumes "set_iteration it"
    and "split TAB (strip line) = [f0, f1]"
    and "read_gene_sets it ls = Inr gs"
  shows "read_gene_sets it (ls @ [line]) =
     Inr (gs(strip f0 \<mapsto>
       \<lparr>name = strip f0, descr = strip f1, genes = {}, genes_ordered = []\<rparr>))"
  using assms(2,3) set_iteration_empty [OF assms(1)]
  by (simp add: read_gene_sets_def read_lines_append GeneSet_init_PySet)

theorem read_gene_sets_two_fields_witness:
  "set_iteration (sorted_list_of_set :: string set \<Rightarrow> string list) \<and>
   split TAB (strip (''SET2'' @ [TAB] @ ''only_description'' @ [CHR 0x0A])) =
     [''SET2'', ''only_description''] \<and>
   read_gene_sets sorted_list_of_set [] = Inr Map.empty \<and>
   read_gene_sets sorted_list_of_set
       ([] @ [''SET2'' @ [TAB] @ ''only_description'' @ [CHR 0x0A]]) =
     Inr [''SET2'' \<mapsto>
       \<lparr>name = ''SET2'', descr = ''only_description'', genes = {}, genes_ordered = []\<rparr>]"
proof -
  have s: "split TAB (strip (''SET2'' @ [TAB] @ ''only_description'' @ [CHR 0x0A])) =
     [''SET2'', ''only_description'']"
    by (simp add: strip_def isspace_def)
  have e: "read_gene_sets sorted_list_of_set [] = Inr Map.empty"
    by (simp add: read_gene_sets_def)
  have t: "strip ''SET2'' = ''SET2''" "strip ''only_description'' = ''only_description''"
    by (simp_all add: strip_def isspace_def)
  show ?thesis
    using set_iteration_sorted s e read_gene_sets_two_fields [OF set_iteration_sorted s e]
    by (simp only: t simp_thms)
qed

text \<open>
  Claim C2 at its own example, \<^verbatim>\<open>"SET1\tdesc one\tGENE_A\tGENE_B\tGENE_A"\<close>.
  \<^verbatim>\<open>read_gene_sets\<close> hands the constructor a \<^verbatim>\<open>set\<close> of the member tokens, so
  \<^verbatim>\<open>genes_ordered\<close> is a listing of that set in the interpreter's iteration order: two
  distinct entries, never the three tokens of the line.
\<close>

theorem read_gene_sets_members_listing:
  assumes "set_iteration it"
  shows "\<exists>g. read_gene_sets it
                [join [TAB] [''SET1'', ''desc one'', ''GENE_A'', ''GENE_B'', ''GENE_A'']] =
              Inr [''SET1'' \<mapsto> g] \<and>
            genes g = {''GENE_A'', ''GENE_B''} \<and>
            genes_ordered g = it {''GENE_A'', ''GENE_B''} \<and>
            length (genes_ordered g) = 2 \<and>
            distinct (genes_ordered g) \<and>
            genes_ordered g \<noteq> [''GENE_A'', ''GENE_B'', ''GENE_A'']"
proof -
  let ?g = "GeneSet_init it ''SET1'' ''desc one'' (PySet {''GENE_A'', ''GENE_B''})"
  have r: "read_gene_sets it
      [join [TAB] [''SET1'', ''desc one'', ''GENE_A'', ''GENE_B'', ''GENE_A'']] =
      Inr [''SET1'' \<mapsto> ?g]"
    by (simp add: read_gene_sets_def strip_def isspace_def insert_commute)
  have l: "length (it {''GENE_A'', ''GENE_B''}) = 2"
    by (simp add: set_iteration_length [OF assms])
  have d: "distinct (it {''GENE_A'', ''GENE_B''})"
    by (simp add: set_iteration_distinct [OF assms])
  have "genes_ordered ?g \<noteq> [''GENE_A'', ''GENE_B'', ''GENE_A'']"
    using l by (auto simp: GeneSet_init_PySet)
  then show ?thesis
    using r l d by (intro exI [of _ ?g]) (simp add: GeneSet_init_PySet)
qed

theorem read_gene_sets_members_listing_witness:
  "\<exists>g. read_gene_sets sorted_list_of_set
          [join [TAB] [''SET1'', ''desc one'', ''GENE_A'', ''GENE_B'', ''GENE_A'']] =
        Inr [''SET1'' \<mapsto> g] \<and>
        genes g = {''GENE_A'', ''GENE_B''} \<and>
        length (genes_ordered g) = 2"
  using read_gene_sets_members_listing [OF set_iteration_sorted] by blast


section \<open>Facts about the alignment\<close>

lemma common_index_eq: "common_index cs dfs = cs \<inter> (\<Inter>df\<in>set dfs. set (index df))"
  by (induction dfs arbitrary: cs) auto

lemma common_index_Cons:
  "common_index (set (index df0)) rest = (\<Inter>df\<in>set (df0 # rest). set (index df))"
  by (simp add: common_index_eq)

lemma finite_common: "dfs \<noteq> [] \<Longrightarrow> finite (\<Inter>df\<in>set dfs. set (index df))"
  by (cases dfs) (auto intro: finite_subset[OF Int_lower1])

lemma collect_map_Inr:
  "(\<And>x. x \<in> set xs \<Longrightarrow> f x = Inr (g x)) \<Longrightarrow> collect (map f xs) = Inr (map g xs)"
  by (induction xs) auto

lemma index_restrict:
  "set (index (concat (map (rows_at df) ks))) = set ks \<inter> set (index df)"
  by (induction ks) (auto simp: index_def rows_at_def)

lemma rows_at_restrict:
  "distinct ks \<Longrightarrow> rows_at (concat (map (rows_at df) ks)) k = (if k \<in> set ks then rows_at df k else [])"
proof (induction ks)
  case Nil
  then show ?case by (simp add: rows_at_def)
next
  case (Cons a ks)
  have "rows_at (rows_at df a @ concat (map (rows_at df) ks)) k =
        rows_at (rows_at df a) k @ rows_at (concat (map (rows_at df) ks)) k"
    by (simp add: rows_at_def)
  moreover have "rows_at (rows_at df a) k = (if a = k then rows_at df k else [])"
    by (induction df) (auto simp: rows_at_def)
  ultimately show ?case using Cons by auto
qed

lemma map_of_rows_at: "map_of df k = (case rows_at df k of [] \<Rightarrow> None | r # _ \<Rightarrow> Some (snd r))"
  by (induction df) (auto simp: rows_at_def)

lemma restrict_idem:
  "distinct ks \<Longrightarrow> concat (map (rows_at (concat (map (rows_at df) ks))) ks) = concat (map (rows_at df) ks)"
proof -
  assume d: "distinct ks"
  have "map (rows_at (concat (map (rows_at df) ks))) ks = map (rows_at df) ks"
    by (rule map_cong[OF refl]) (simp add: rows_at_restrict[OF d])
  then show ?thesis by (rule arg_cong)
qed

lemma to_common_samples_result:
  assumes it: "set_iteration it" and ne: "df_list \<noteq> []"
  shows "to_common_samples it df_list =
     Inr (if common_keys df_list = {} then [''No common samples!''] else [],
          map (\<lambda>df. concat (map (rows_at df) (it (common_keys df_list)))) df_list)"
proof -
  obtain df0 rest where dl: "df_list = df0 # rest" using ne by (cases df_list) auto
  let ?cs = "common_keys df_list"
  have fin: "finite ?cs" unfolding common_keys_def using ne by (rule finite_common)
  have cs: "common_index (set (index df0)) rest = ?cs"
    by (simp add: common_index_Cons dl common_keys_def)
  have sub: "\<And>df. df \<in> set df_list \<Longrightarrow> set (it ?cs) \<subseteq> set (index df)"
    using set_iteration_set[OF it fin] by (auto simp: common_keys_def)
  have col: "collect (map (\<lambda>df. loc df (it ?cs)) df_list) =
      Inr (map (\<lambda>df. concat (map (rows_at df) (it ?cs))) df_list)"
    by (rule collect_map_Inr) (simp add: loc_def sub)
  have card: "(card ?cs < 1) = (?cs = {})" using fin by auto
  show ?thesis
    unfolding to_common_samples_def dl list.case cs Let_def
    using col card by (simp add: dl)
qed

text \<open>
  Claim C3.  On a non-empty list of tables \<^verbatim>\<open>to_common_samples\<close> returns one table per
  input, in the input's order; the key set of each is the intersection of all input key
  sets, and at every key of the intersection the output holds the rows (and so the
  value) its input holds there.
\<close>

theorem to_common_samples_correct:
  assumes "set_iteration it" and "df_list \<noteq> []"
  shows "\<exists>w outs. to_common_samples it df_list = Inr (w, outs) \<and>
           length outs = length df_list \<and>
           (\<forall>i<length df_list.
              set (index (outs ! i)) = (\<Inter>df\<in>set df_list. set (index df)) \<and>
              (\<forall>k\<in>(\<Inter>df\<in>set df_list. set (index df)).
                 rows_at (outs ! i) k = rows_at (df_list ! i) k \<and>
                 map_of (outs ! i) k = map_of (df_list ! i) k))"
proof -
  let ?cs = "common_keys df_list"
  let ?outs = "map (\<lambda>df. concat (map (rows_at df) (it ?cs))) df_list"
  have fin: "finite ?cs" unfolding common_keys_def using assms(2) by (rule finite_common)
  have s: "set (it ?cs) = ?cs" and d: "distinct (it ?cs)"
    using set_iteration_set[OF assms(1) fin] set_iteration_distinct[OF assms(1) fin] by auto
  have "set (index (?outs ! i)) = ?cs" if "i < length df_list" for i
  proof -
    have "?cs \<subseteq> set (index (df_list ! i))"
      using that by (auto simp: common_keys_def)
    then show ?thesis using that by (auto simp: index_restrict s)
  qed
  moreover have "rows_at (?outs ! i) k = rows_at (df_list ! i) k"
    if "i < length df_list" "k \<in> ?cs" for i k
    using that by (simp add: rows_at_restrict[OF d] s)
  moreover have "map_of (?outs ! i) k = map_of (df_list ! i) k"
    if "i < length df_list" "k \<in> ?cs" for i k
    using that by (simp add: map_of_rows_at rows_at_restrict[OF d] s)
  ultimately show ?thesis
    unfolding to_common_samples_result[OF assms] common_keys_def[symmetric]
    by (intro exI[of _ "if ?cs = {} then [''No common samples!''] else []"] exI[of _ ?outs]) simp
qed

theorem to_common_samples_correct_witness:
  "\<exists>w outs.
     to_common_samples sorted_list_of_set
       [[(1::nat, ''a''), (2, ''b'')], [(2, ''c''), (3, ''d'')]] = Inr (w, outs) \<and>
     outs = [[(2, ''b'')], [(2, ''c'')]] \<and>
     length outs = length [[(1::nat, ''a''), (2, ''b'')], [(2, ''c''), (3, ''d'')]] \<and>
     set (index (outs ! 0)) = {2} \<and> map_of (outs ! 1) 2 = Some ''c''"
proof -
  let ?L = "[[(1::nat, ''a''), (2, ''b'')], [(2, ''c''), (3, ''d'')]]"
  have c: "(\<Inter>df\<in>set ?L. set (index df)) = {2}"
    by (auto simp: index_def)
  have v: "to_common_samples sorted_list_of_set ?L = Inr ([], [[(2, ''b'')], [(2, ''c'')]])"
    by (simp add: to_common_samples_def index_def loc_def rows_at_def)
  from to_common_samples_correct [OF set_iteration_sorted, of ?L]
  obtain w outs where
    "to_common_samples sorted_list_of_set ?L = Inr (w, outs)"
    "length outs = length ?L"
    "\<forall>i<length ?L. set (index (outs ! i)) = (\<Inter>df\<in>set ?L. set (index df))"
    by auto
  with v c show ?thesis by (auto simp: index_def)
qed

text \<open>
  Claim C7.  When the key sets of a non-empty list of tables have no key in common,
  \<^verbatim>\<open>to_common_samples\<close> raises nothing: it returns one empty table per input, and the
  only signal is the warning it issued.
\<close>

theorem to_common_samples_empty_intersection:
  assumes "set_iteration it" and "df_list \<noteq> []"
    and "(\<Inter>df\<in>set df_list. set (index df)) = {}"
  shows "to_common_samples it df_list =
           Inr ([''No common samples!''], map (\<lambda>df. []) df_list)"
  using assms(3) set_iteration_empty[OF assms(1)]
  by (simp add: to_common_samples_result[OF assms(1,2)] common_keys_def)

theorem to_common_samples_empty_intersection_witness:
  "set_iteration (sorted_list_of_set :: nat set \<Rightarrow> nat list) \<and>
   [[(1::nat, ''a'')], [(2, ''b'')]] \<noteq> [] \<and>
   (\<Inter>df\<in>set [[(1::nat, ''a'')], [(2, ''b'')]]. set (index df)) = {} \<and>
   to_common_samples sorted_list_of_set [[(1::nat, ''a'')], [(2, ''b'')]] =
     Inr ([''No common samples!''], [[], []])"
proof -
  let ?L = "[[(1::nat, ''a'')], [(2, ''b'')]]"
  have n: "?L \<noteq> []" by simp
  have c: "(\<Inter>df\<in>set ?L. set (index df)) = {}"
    by (simp add: index_def)
  show ?thesis
    using set_iteration_sorted n c
      to_common_samples_empty_intersection [OF set_iteration_sorted n c]
    by simp
qed

text \<open>
  Claim C8.  \<^verbatim>\<open>to_common_samples\<close> is idempotent on key sets: applied to its own
  output it succeeds again and returns tables with the same key sets, whatever the
  orders in which the two calls iterate over their sets of common samples.
\<close>

theorem to_common_samples_idempotent:
  assumes "set_iteration it" and "set_iteration it'" and "df_list \<noteq> []"
  shows "\<exists>w outs w' outs'.
           to_common_samples it df_list = Inr (w, outs) \<and>
           to_common_samples it' outs = Inr (w', outs') \<and>
           map (\<lambda>df. set (index df)) outs' = map (\<lambda>df. set (index df)) outs"
proof -
  let ?cs = "common_keys df_list"
  let ?outs = "map (\<lambda>df. concat (map (rows_at df) (it ?cs))) df_list"
  let ?outs' = "map (\<lambda>df. concat (map (rows_at df) (it' ?cs))) ?outs"
  have fin: "finite ?cs" unfolding common_keys_def using assms(3) by (rule finite_common)
  have s: "set (it ?cs) = ?cs" and s': "set (it' ?cs) = ?cs"
    using set_iteration_set[OF assms(1) fin] set_iteration_set[OF assms(2) fin] by auto
  have ne: "?outs \<noteq> []" using assms(3) by simp
  have keys: "set (index out) = ?cs" if mem: "out \<in> set ?outs" for out
  proof -
    obtain df where "df \<in> set df_list" "out = concat (map (rows_at df) (it ?cs))"
      using mem by auto
    moreover have "?cs \<subseteq> set (index df)" using calculation(1) by (auto simp: common_keys_def)
    ultimately show ?thesis by (auto simp: index_restrict s)
  qed
  have cs': "common_keys ?outs = ?cs"
  proof -
    obtain o0 where "o0 \<in> set ?outs" using ne by (cases ?outs) auto
    then show ?thesis
      unfolding common_keys_def[of ?outs] using keys by blast
  qed
  have second: "to_common_samples it' ?outs =
      Inr (if ?cs = {} then [''No common samples!''] else [], ?outs')"
    unfolding to_common_samples_result[OF assms(2) ne] cs' by simp
  have step: "set (index (concat (map (rows_at out) (it' ?cs)))) = set (index out)"
    if "out \<in> set ?outs" for out
    using keys[OF that] by (simp add: index_restrict s')
  have same: "map (\<lambda>df. set (index df)) ?outs' = map (\<lambda>df. set (index df)) ?outs"
    unfolding map_map[of "\<lambda>df. set (index df)" "\<lambda>df. concat (map (rows_at df) (it' ?cs))" ?outs]
      comp_def
    by (rule map_cong[OF refl]) (rule step)
  show ?thesis
    unfolding to_common_samples_result[OF assms(1,3)]
    using second same
    by (intro exI[of _ "if ?cs = {} then [''No common samples!''] else []"] exI[of _ ?outs]
        exI[of _ ?outs']) simp
qed

theorem to_common_samples_idempotent_witness:
  "set_iteration (sorted_list_of_set :: nat set \<Rightarrow> nat list) \<and>
   set_iteration (\<lambda>S :: nat set. rev (sorted_list_of_set S)) \<and>
   (\<exists>w outs w' outs'.
     to_common_samples sorted_list_of_set
       [[(1::nat, ''a''), (2, ''b''), (3, ''c'')], [(2, ''d''), (3, ''e''), (4, ''f'')]] =
       Inr (w, outs) \<and>
     to_common_samples (\<lambda>S. rev (sorted_list_of_set S)) outs = Inr (w', outs') \<and>
     map (\<lambda>df. set (index df)) outs' = map (\<lambda>df. set (index df)) outs)"
  using set_iteration_sorted set_iteration_rev_sorted
    to_common_samples_idempotent [OF set_iteration_sorted set_iteration_rev_sorted,
      of "[[(1::nat, ''a''), (2, ''b''), (3, ''c'')], [(2, ''d''), (3, ''e''), (4, ''f'')]]"]
  by auto


section \<open>Facts about floating-point rounding\<close>

lemma ilog2_bounds:
  assumes "0 < x"
  shows "2 powi (ilog2 x) \<le> x" and "x < 2 powi (ilog2 x + 1)"
proof -
  obtain p q where pq: "quotient_of x = (p, q)" by (cases "quotient_of x")
  have q: "0 < q" using pq by (rule quotient_of_denom_pos)
  have x: "x = of_int p / of_int q" using pq by (rule quotient_of_div)
  have p: "0 < p" using assms q x by (simp add: zero_less_divide_iff)
  let ?e = "bitlen p - bitlen q"
  have bp: "2 ^ nat (bitlen p - 1) \<le> p" "p < 2 ^ nat (bitlen p)" using bitlen_bounds[OF p] by auto
  have bq: "2 ^ nat (bitlen q - 1) \<le> q" "q < 2 ^ nat (bitlen q)" using bitlen_bounds[OF q] by auto
  have p1: "1 \<le> bitlen p" using p bitlen_eq_zero_iff[of p] bitlen_nonneg[of p] by linarith
  have q1: "1 \<le> bitlen q" using q bitlen_eq_zero_iff[of q] bitlen_nonneg[of q] by linarith
  have P1: "(2::rat) powi (bitlen p - 1) \<le> of_int p"
  proof -
    have "(2::rat) powi (bitlen p - 1) = 2 ^ nat (bitlen p - 1)" using p1 by (simp add: power_int_def)
    also have "\<dots> = of_int (2 ^ nat (bitlen p - 1))" by simp
    also have "\<dots> \<le> of_int p" using bp(1) by (simp only: of_int_le_iff)
    finally show ?thesis .
  qed
  have P2: "of_int p < (2::rat) powi (bitlen p)"
  proof -
    have "(2::rat) powi (bitlen p) = 2 ^ nat (bitlen p)" using p1 by (simp add: power_int_def)
    also have "\<dots> = of_int (2 ^ nat (bitlen p))" by simp
    finally show ?thesis using bp(2) by (simp only: of_int_less_iff)
  qed
  have Q1: "(2::rat) powi (bitlen q - 1) \<le> of_int q"
  proof -
    have "(2::rat) powi (bitlen q - 1) = 2 ^ nat (bitlen q - 1)" using q1 by (simp add: power_int_def)
    also have "\<dots> = of_int (2 ^ nat (bitlen q - 1))" by simp
    also have "\<dots> \<le> of_int q" using bq(1) by (simp only: of_int_le_iff)
    finally show ?thesis .
  qed
  have Q2: "of_int q < (2::rat) powi (bitlen q)"
  proof -
    have "(2::rat) powi (bitlen q) = 2 ^ nat (bitlen q)" using q1 by (simp add: power_int_def)
    also have "\<dots> = of_int (2 ^ nat (bitlen q))" by simp
    finally show ?thesis using bq(2) by (simp only: of_int_less_iff)
  qed
  have qr: "(0::rat) < of_int q" using q by simp
  have lower: "2 powi (?e - 1) \<le> x"
  proof -
    have "(2::rat) powi (?e - 1) * of_int q \<le> 2 powi (?e - 1) * 2 powi (bitlen q)"
      using Q2 by (intro mult_left_mono) auto
    also have "\<dots> = 2 powi (bitlen p - 1)"
      by (simp add: power_int_add[symmetric])
    also have "\<dots> \<le> of_int p" by (rule P1)
    finally show ?thesis using qr by (simp add: x pos_le_divide_eq)
  qed
  have upper: "x < 2 powi (?e + 1)"
  proof -
    have "of_int p < (2::rat) powi (bitlen p)" by (rule P2)
    also have "\<dots> = 2 powi (?e + 1) * 2 powi (bitlen q - 1)"
      by (simp add: power_int_add[symmetric])
    also have "\<dots> \<le> 2 powi (?e + 1) * of_int q"
      using Q1 by (intro mult_left_mono) auto
    finally show ?thesis using qr by (simp add: x pos_divide_less_eq)
  qed
  have il: "ilog2 x = (if 2 powi ?e \<le> x then ?e else ?e - 1)"
    by (simp add: ilog2_def pq Let_def)
  show "2 powi (ilog2 x) \<le> x" using lower by (simp add: il)
  show "x < 2 powi (ilog2 x + 1)" using upper by (auto simp: il not_le)
qed

lemma ilog2_mono:
  assumes "0 < x" and "x \<le> y"
  shows "ilog2 x \<le> ilog2 y"
proof (rule ccontr)
  assume "\<not> ilog2 x \<le> ilog2 y"
  then have "ilog2 y + 1 \<le> ilog2 x" by simp
  then have "(2::rat) powi (ilog2 y + 1) \<le> 2 powi (ilog2 x)"
    by (intro power_int_increasing) auto
  also have "\<dots> \<le> x" using assms(1) by (rule ilog2_bounds)
  also have "\<dots> \<le> y" by (rule assms(2))
  finally show False using ilog2_bounds(2)[of y] assms by simp
qed

lemma round_half_even_of_int [simp]: "round_half_even (of_int n) = n"
  by (simp add: round_half_even_def)

lemma round_half_even_range:
  "\<lfloor>m\<rfloor> \<le> round_half_even m" "round_half_even m \<le> \<lfloor>m\<rfloor> + 1"
  by (simp_all add: round_half_even_def Let_def)

lemma round_half_even_mono:
  assumes "m \<le> m'"
  shows "round_half_even m \<le> round_half_even m'"
proof (cases "\<lfloor>m\<rfloor> = \<lfloor>m'\<rfloor>")
  case True
  then show ?thesis using assms by (auto simp: round_half_even_def Let_def)
next
  case False
  then have "\<lfloor>m\<rfloor> + 1 \<le> \<lfloor>m'\<rfloor>" using floor_mono[OF assms] by linarith
  then show ?thesis
    using round_half_even_range(2)[of m] round_half_even_range(1)[of m'] by linarith
qed



lemma round53_0 [simp]: "round53 0 = 0"
  by (simp add: round53_def)

lemma round53_minus: "round53 (- x) = - round53 x"
  by (simp add: round53_def Let_def sgn_minus)

lemma round53_pos_eq:
  assumes "0 < x" and "e = max (ilog2 x) (- 1022)"
  shows "round53 x = of_int (round_half_even (x / 2 powi (e - 52))) * 2 powi (e - 52)"
  using assms by (simp add: round53_def Let_def)

lemma round53_nonneg:
  assumes "0 \<le> x"
  shows "0 \<le> round53 x"
proof (cases "x = 0")
  case True
  then show ?thesis by simp
next
  case False
  then have x: "0 < x" using assms by simp
  define e where "e = max (ilog2 x) (- 1022)"
  let ?u = "(2::rat) powi (e - 52)"
  have u: "0 < ?u" by simp
  have "0 \<le> x / ?u" using x u by simp
  then have "round_half_even (of_int 0) \<le> round_half_even (x / ?u)"
    by (intro round_half_even_mono) simp
  then have "0 \<le> round_half_even (x / ?u)" by (simp only: round_half_even_of_int)
  then show ?thesis
    unfolding round53_pos_eq[OF x e_def] using u by simp
qed

lemma round53_upper:
  assumes "0 < x"
  shows "round53 x \<le> 2 powi (max (ilog2 x) (- 1022) + 1)"
proof -
  define e where "e = max (ilog2 x) (- 1022)"
  let ?u = "(2::rat) powi (e - 52)"
  have u: "0 < ?u" by simp
  have hi: "(2::rat) powi (e + 1) = of_int (2 ^ 53) * ?u"
    by (simp add: power_int_diff power_int_add)
  have "x < 2 powi (ilog2 x + 1)" using assms by (rule ilog2_bounds)
  also have "\<dots> \<le> 2 powi (e + 1)"
    by (intro power_int_increasing) (auto simp: e_def)
  finally have "x / ?u \<le> of_int (2 ^ 53)"
    using u unfolding hi by (simp add: pos_divide_le_eq)
  then have "round_half_even (x / ?u) \<le> round_half_even (of_int (2 ^ 53))"
    by (rule round_half_even_mono)
  then have b: "round_half_even (x / ?u) \<le> (2 ^ 53 :: int)"
    by (simp only: round_half_even_of_int)
  have "of_int (round_half_even (x / ?u)) * ?u \<le> of_int (2 ^ 53) * ?u"
    by (rule mult_right_mono[OF of_int_le_iff[THEN iffD2, OF b] less_imp_le[OF u]])
  then show ?thesis
    unfolding round53_pos_eq[OF assms e_def] hi e_def[symmetric] .
qed

lemma round53_lower:
  assumes "0 < x" and "- 1022 \<le> ilog2 x"
  shows "2 powi (ilog2 x) \<le> round53 x"
proof -
  define e where "e = max (ilog2 x) (- 1022)"
  have e: "e = ilog2 x" using assms(2) by (simp add: e_def)
  let ?u = "(2::rat) powi (e - 52)"
  have u: "0 < ?u" by simp
  have lo: "(2::rat) powi e = of_int (2 ^ 52) * ?u"
    by (simp add: power_int_diff)
  have "2 powi e \<le> x" unfolding e using assms(1) by (rule ilog2_bounds)
  then have "of_int (2 ^ 52) \<le> x / ?u"
    using u unfolding lo by (simp add: pos_le_divide_eq)
  then have "round_half_even (of_int (2 ^ 52)) \<le> round_half_even (x / ?u)"
    by (rule round_half_even_mono)
  then have a: "(2 ^ 52 :: int) \<le> round_half_even (x / ?u)"
    by (simp only: round_half_even_of_int)
  have "2 powi (ilog2 x) = of_int (2 ^ 52) * ?u"
    using lo by (simp only: e)
  also have "\<dots> \<le> of_int (round_half_even (x / ?u)) * ?u"
    by (rule mult_right_mono[OF of_int_le_iff[THEN iffD2, OF a] less_imp_le[OF u]])
  also have "\<dots> = round53 x"
    by (rule round53_pos_eq[OF assms(1) e_def, symmetric])
  finally show ?thesis .
qed

lemma round53_mono_pos:
  assumes "0 < x" and "x \<le> y"
  shows "round53 x \<le> round53 y"
proof -
  define ex where "ex = max (ilog2 x) (- 1022)"
  define ey where "ey = max (ilog2 y) (- 1022)"
  have y: "0 < y" using assms by simp
  have le: "ex \<le> ey" using ilog2_mono[OF assms] by (simp add: ex_def ey_def)
  show ?thesis
  proof (cases "ex = ey")
    case True
    let ?u = "(2::rat) powi (ex - 52)"
    have u: "0 < ?u" by simp
    have "x / ?u \<le> y / ?u" using assms(2) u by (simp add: divide_right_mono)
    then have "round_half_even (x / ?u) \<le> round_half_even (y / ?u)"
      by (rule round_half_even_mono)
    then have "of_int (round_half_even (x / ?u)) * ?u \<le> of_int (round_half_even (y / ?u)) * ?u"
      using u by (intro mult_right_mono) simp_all
    then show ?thesis
      unfolding round53_pos_eq[OF assms(1) ex_def] round53_pos_eq[OF y ey_def] True .
  next
    case False
    then have lt: "ex + 1 \<le> ey" using le by simp
    then have "- 1022 < ey" by (simp add: ex_def)
    then have ey: "ey = ilog2 y" and n: "- 1022 \<le> ilog2 y"
      by (auto simp: ey_def max_def split: if_splits)
    have "round53 x \<le> 2 powi (ex + 1)"
      unfolding ex_def using assms(1) by (rule round53_upper)
    also have "\<dots> \<le> 2 powi ey"
      using lt by (intro power_int_increasing) auto
    also have "\<dots> \<le> round53 y"
      unfolding ey using y n by (rule round53_lower)
    finally show ?thesis .
  qed
qed

lemma round53_mono:
  assumes "x \<le> y"
  shows "round53 x \<le> round53 y"
proof -
  consider "0 < x" | "x \<le> 0" "0 \<le> y" | "y < 0" by linarith
  then show ?thesis
  proof cases
    case 1
    then show ?thesis using assms by (rule round53_mono_pos)
  next
    case 2
    have "0 \<le> round53 (- x)" using 2(1) by (intro round53_nonneg) simp
    then have "round53 x \<le> 0" by (simp add: round53_minus)
    also have "0 \<le> round53 y" using 2(2) by (rule round53_nonneg)
    finally show ?thesis .
  next
    case 3
    have "round53 (- y) \<le> round53 (- x)"
      using 3 assms by (intro round53_mono_pos) auto
    then show ?thesis by (simp add: round53_minus)
  qed
qed

lemma ilog2_0: "ilog2 0 = - 2"
  by code_simp

lemma ilog2_less_iff: "ilog2 \<bar>r\<bar> < 1024 \<longleftrightarrow> \<bar>r\<bar> < 2 ^ 1024"
proof (cases "r = 0")
  case True
  then show ?thesis by (simp add: ilog2_0)
next
  case False
  then have x: "0 < \<bar>r\<bar>" by simp
  have p: "(2::rat) powi 1024 = 2 ^ 1024" by (simp only: power_int_numeral)
  show ?thesis
  proof
    assume "ilog2 \<bar>r\<bar> < 1024"
    then have "(2::rat) powi (ilog2 \<bar>r\<bar> + 1) \<le> 2 powi 1024"
      by (intro power_int_increasing) auto
    with ilog2_bounds(2)[OF x] show "\<bar>r\<bar> < 2 ^ 1024" unfolding p by (rule less_le_trans)
  next
    assume a: "\<bar>r\<bar> < 2 ^ 1024"
    show "ilog2 \<bar>r\<bar> < 1024"
    proof (rule ccontr)
      assume "\<not> ilog2 \<bar>r\<bar> < 1024"
      then have "(2::rat) powi 1024 \<le> 2 powi (ilog2 \<bar>r\<bar>)"
        by (intro power_int_increasing) auto
      also have "\<dots> \<le> \<bar>r\<bar>" using x by (rule ilog2_bounds(1))
      finally have "(2::rat) ^ 1024 \<le> \<bar>r\<bar>" unfolding p .
      with a show False by (rule less_le_not_le[THEN iffD1, THEN conjunct2, THEN notE])
    qed
  qed
qed

lemma pack_float64: "is_float64 x \<Longrightarrow> pack x = Fin x"
  by (simp add: is_float64_def)

lemma pack_0 [simp]: "pack 0 = Fin 0"
  by (simp add: pack_def ilog2_0)

lemma pack_Fin: "pack q = Fin t \<Longrightarrow> t = round53 q \<and> \<bar>t\<bar> < 2 ^ 1024"
  unfolding pack_def Let_def ilog2_less_iff by (auto split: if_splits)

lemma pack_bounded: "\<bar>round53 q\<bar> < 2 ^ 1024 \<Longrightarrow> pack q = Fin (round53 q)"
  unfolding pack_def Let_def ilog2_less_iff by simp


section \<open>Facts about the binning\<close>

lemma fle_NaN [simp]: "\<not> fle a NaN" "\<not> fle NaN a"
  by (cases a; simp)+

lemma flt_NaN [simp]: "\<not> flt a NaN" "\<not> flt NaN a"
  by (cases a; simp)+

lemma fle_refl: "a \<noteq> NaN \<Longrightarrow> fle a a"
  by (cases a) simp_all

lemma fle_trans: "fle a b \<Longrightarrow> fle b c \<Longrightarrow> fle a c"
  by (cases a; cases b; cases c) simp_all

lemma fle_total: "a \<noteq> NaN \<Longrightarrow> b \<noteq> NaN \<Longrightarrow> fle a b \<or> fle b a"
  by (cases a; cases b) auto


lemma flt_fle_trans: "flt a b \<Longrightarrow> fle b c \<Longrightarrow> flt a c"
  by (cases a; cases b; cases c) simp_all

lemma flt_not_fle: "flt a b \<Longrightarrow> \<not> fle b a"
  by (cases a; cases b) simp_all

lemma not_fle_flt: "a \<noteq> NaN \<Longrightarrow> b \<noteq> NaN \<Longrightarrow> \<not> fle b a \<Longrightarrow> flt a b"
  by (cases a; cases b) simp_all

lemma fadd_Fin:
  assumes "fadd a b = Fin t"
  obtains x y where "a = Fin x" and "b = Fin y" and "pack (x + y) = Fin t"
  using assms by (cases a; cases b) simp_all

lemma fsub_Fin:
  assumes "fsub a b = Fin t"
  obtains x y where "a = Fin x" and "b = Fin y" and "pack (x - y) = Fin t"
proof -
  obtain x z where a: "a = Fin x" and z: "fneg b = Fin z" and p: "pack (x + z) = Fin t"
    using assms unfolding fsub_def by (rule fadd_Fin)
  from z have "b = Fin (- z)" by (cases b) simp_all
  with a p that[of x "- z"] show thesis by simp
qed

lemma fmul_Fin_1:
  assumes "fmul a (Fin 1) = Fin t"
  obtains r where "a = Fin r" and "pack r = Fin t"
  using assms by (cases a) simp_all

lemma fold_fmax:
  "a \<noteq> NaN \<Longrightarrow> NaN \<notin> set xs \<Longrightarrow>
   fold fmax xs a \<in> set (a # xs) \<and> (\<forall>x\<in>set (a # xs). fle x (fold fmax xs a))"
proof (induction xs arbitrary: a)
  case Nil
  then show ?case by (simp add: fle_refl)
next
  case (Cons x xs)
  have x: "x \<noteq> NaN" and xs: "NaN \<notin> set xs" using Cons.prems(2) by auto
  have n: "fmax x a \<noteq> NaN" using Cons.prems(1) x by (simp add: fmax_def)
  have a: "fle a (fmax x a)" and b: "fle x (fmax x a)"
    using fle_total[OF Cons.prems(1) x] fle_refl[OF x] fle_refl[OF Cons.prems(1)]
    by (auto simp: fmax_def)
  have mem: "fmax x a \<in> {a, x}" by (simp add: fmax_def)
  have IH: "fold fmax xs (fmax x a) \<in> set (fmax x a # xs)"
    "\<forall>y\<in>set (fmax x a # xs). fle y (fold fmax xs (fmax x a))"
    using Cons.IH[OF n xs] by auto
  have top: "fle (fmax x a) (fold fmax xs (fmax x a))" using IH(2) by simp
  have "fle a (fold fmax xs (fmax x a))" "fle x (fold fmax xs (fmax x a))"
    using fle_trans[OF a top] fle_trans[OF b top] by auto
  then show ?case using IH mem by auto
qed

lemma fold_fmin:
  "a \<noteq> NaN \<Longrightarrow> NaN \<notin> set xs \<Longrightarrow>
   fold fmin xs a \<in> set (a # xs) \<and> (\<forall>x\<in>set (a # xs). fle (fold fmin xs a) x)"
proof (induction xs arbitrary: a)
  case Nil
  then show ?case by (simp add: fle_refl)
next
  case (Cons x xs)
  have x: "x \<noteq> NaN" and xs: "NaN \<notin> set xs" using Cons.prems(2) by auto
  have n: "fmin x a \<noteq> NaN" using Cons.prems(1) x by (simp add: fmin_def)
  have a: "fle (fmin x a) a" and b: "fle (fmin x a) x"
    using fle_total[OF Cons.prems(1) x] fle_refl[OF x] fle_refl[OF Cons.prems(1)]
    by (auto simp: fmin_def)
  have mem: "fmin x a \<in> {a, x}" by (simp add: fmin_def)
  have IH: "fold fmin xs (fmin x a) \<in> set (fmin x a # xs)"
    "\<forall>y\<in>set (fmin x a # xs). fle (fold fmin xs (fmin x a)) y"
    using Cons.IH[OF n xs] by auto
  have bot: "fle (fold fmin xs (fmin x a)) (fmin x a)" using IH(2) by simp
  have "fle (fold fmin xs (fmin x a)) a" "fle (fold fmin xs (fmin x a)) x"
    using fle_trans[OF bot a] fle_trans[OF bot b] by auto
  then show ?case using IH mem by auto
qed

lemma set_present: "set (present data) = {v. v \<noteq> NaN \<and> (\<exists>k. (k, v) \<in> set data)}"
  by (force simp: present_def image_iff)

lemma series_max_facts:
  assumes "present data = x # xs"
  shows "series_max data \<in> set (present data)"
    and "\<forall>v\<in>set (present data). fle v (series_max data)"
proof -
  have "x \<noteq> NaN" and "NaN \<notin> set xs"
    using set_present[of data] unfolding assms by auto
  then have "fold fmax xs x \<in> set (x # xs) \<and> (\<forall>v\<in>set (x # xs). fle v (fold fmax xs x))"
    by (rule fold_fmax)
  then show "series_max data \<in> set (present data)"
    and "\<forall>v\<in>set (present data). fle v (series_max data)"
    by (simp_all add: series_max_def assms)
qed

lemma series_min_facts:
  assumes "present data = x # xs"
  shows "series_min data \<in> set (present data)"
    and "\<forall>v\<in>set (present data). fle (series_min data) v"
proof -
  have "x \<noteq> NaN" and "NaN \<notin> set xs"
    using set_present[of data] unfolding assms by auto
  then have "fold fmin xs x \<in> set (x # xs) \<and> (\<forall>v\<in>set (x # xs). fle (fold fmin xs x) v)"
    by (rule fold_fmin)
  then show "series_min data \<in> set (present data)"
    and "\<forall>v\<in>set (present data). fle (series_min data) v"
    by (simp_all add: series_min_def assms)
qed

lemma series_max_ge:
  assumes "(k, v) \<in> set data" and "v \<noteq> NaN"
  shows "fle v (series_max data)"
proof -
  have v: "v \<in> set (present data)" using assms by (auto simp: set_present)
  then obtain x xs where "present data = x # xs" by (cases "present data") auto
  from series_max_facts(2)[OF this] v show ?thesis by blast
qed

lemma series_min_le:
  assumes "(k, v) \<in> set data" and "v \<noteq> NaN"
  shows "fle (series_min data) v"
proof -
  have v: "v \<in> set (present data)" using assms by (auto simp: set_present)
  then obtain x xs where "present data = x # xs" by (cases "present data") auto
  from series_min_facts(2)[OF this] v show ?thesis by blast
qed

lemma series_max_mem:
  assumes "series_max data = Fin M"
  obtains k where "(k, Fin M) \<in> set data"
proof (cases "present data")
  case Nil
  then show ?thesis using assms by (simp add: series_max_def)
next
  case (Cons x xs)
  from series_max_facts(1)[OF this] have "Fin M \<in> set (present data)" by (simp add: assms)
  then show ?thesis using that by (auto simp: set_present)
qed

lemma series_min_mem:
  assumes "series_min data = Fin m"
  obtains k where "(k, Fin m) \<in> set data"
proof (cases "present data")
  case Nil
  then show ?thesis using assms by (simp add: series_min_def)
next
  case (Cons x xs)
  from series_min_facts(1)[OF this] have "Fin m \<in> set (present data)" by (simp add: assms)
  then show ?thesis using that by (auto simp: set_present)
qed

lemma series_min_le_max:
  assumes "series_min data = Fin m" and "series_max data = Fin M"
  shows "m \<le> M"
proof -
  obtain k where "(k, Fin M) \<in> set data" using assms(2) by (rule series_max_mem)
  then have "fle (series_min data) (Fin M)" by (rule series_min_le) simp
  then show ?thesis by (simp add: assms(1))
qed

lemma series_min_float64:
  assumes "series_min data = Fin m" and "float64_values data"
  shows "is_float64 m"
proof -
  obtain k where "(k, Fin m) \<in> set data" using assms(1) by (rule series_min_mem)
  then show ?thesis using assms(2) by (auto simp: float64_values_def list_all_iff)
qed

lemma cut_at_mono: "0 \<le> r \<Longrightarrow> c \<le> c' \<Longrightarrow> cut_at m r c \<le> cut_at m r c'"
  unfolding cut_at_def by (intro round53_mono add_left_mono mult_left_mono)

lemma cut_at_0: "round53 m = m \<Longrightarrow> cut_at m r 0 = m"
  by (simp add: cut_at_def)

text \<open>When the top threshold is finite, so is the threshold at every cut between 0 and 1.\<close>

lemma threshold_Fin:
  assumes m: "series_min data = Fin m" and fm: "is_float64 m" and r: "0 \<le> r"
    and top: "threshold data (Fin r) (PyInt 1) = Fin T"
    and c: "0 \<le> num_val tr" "num_val tr \<le> 1"
  shows "threshold data (Fin r) tr = Fin (cut_at m r (num_val tr))"
proof -
  let ?c = "num_val tr"
  have "fadd (Fin m) (pack r) = Fin T"
    using top by (simp add: threshold_def m)
  then obtain y where pr: "pack r = Fin y" and pT: "pack (m + y) = Fin T"
    by (cases "pack r") simp_all
  have y: "y = round53 r" and yb: "\<bar>y\<bar> < 2 ^ 1024" using pack_Fin[OF pr] by auto
  have T: "T = round53 (m + y)" and Tb: "\<bar>T\<bar> < 2 ^ 1024" using pack_Fin[OF pT] by auto
  have rm: "round53 m = m" and mb: "\<bar>m\<bar> < 2 ^ 1024"
    using pack_Fin[OF pack_float64[OF fm]] by auto
  have lo: "0 \<le> round53 (r * ?c)"
    using r c(1) by (intro round53_nonneg) simp
  have "r * ?c \<le> r * 1" using r c(2) by (rule mult_left_mono[rotated])
  then have hi: "round53 (r * ?c) \<le> y" unfolding y by (intro round53_mono) simp
  have p1: "pack (r * ?c) = Fin (round53 (r * ?c))"
    using lo hi yb by (intro pack_bounded) simp
  have "round53 m \<le> cut_at m r ?c"
    unfolding cut_at_def using lo by (intro round53_mono) simp
  then have l2: "m \<le> cut_at m r ?c" by (simp only: rm)
  have h2: "cut_at m r ?c \<le> T"
    unfolding cut_at_def T using hi by (intro round53_mono) simp
  have p2: "pack (m + round53 (r * ?c)) = Fin (cut_at m r ?c)"
    unfolding cut_at_def[symmetric, of m r ?c]
    using l2 h2 mb Tb unfolding cut_at_def by (intro pack_bounded) linarith
  show ?thesis by (simp add: threshold_def m p1 p2)
qed

lemma mset_filter_split:
  assumes "\<And>x. x \<in> set xs \<Longrightarrow> (R x \<longleftrightarrow> P x \<or> Q x) \<and> \<not> (P x \<and> Q x)"
  shows "mset (map f (filter P xs)) + mset (map f (filter Q xs)) = mset (map f (filter R xs))"
  using assms by (induction xs) auto

lemma flt_split:
  assumes "a \<le> b" and "b \<le> z"
  shows "(flt (Fin a) v \<and> fle v (Fin z) \<longleftrightarrow>
          (flt (Fin a) v \<and> fle v (Fin b)) \<or> (flt (Fin b) v \<and> fle v (Fin z))) \<and>
         \<not> ((flt (Fin a) v \<and> fle v (Fin b)) \<and> (flt (Fin b) v \<and> fle v (Fin z)))"
  using assms by (cases v) auto

lemma fle_split:
  assumes "a \<le> b" and "b \<le> z"
  shows "(fle (Fin a) v \<and> fle v (Fin z) \<longleftrightarrow>
          (fle (Fin a) v \<and> fle v (Fin b)) \<or> (flt (Fin b) v \<and> fle v (Fin z))) \<and>
         \<not> ((fle (Fin a) v \<and> fle v (Fin b)) \<and> (flt (Fin b) v \<and> fle v (Fin z)))"
  using assms by (cases v) auto

lemma index_concat: "index (concat xs) = concat (map index xs)"
  by (induction xs) (simp_all add: index_def)

lemma index_append: "index (xs @ ys) = index xs @ index ys"
  by (simp add: index_def)

lemma index_label: "index (map (\<lambda>k. (k, l)) x) = x"
  by (simp add: index_def comp_def)

lemma ranges_loop_mset:
  assumes m: "series_min data = Fin m" and fm: "is_float64 m" and r: "0 \<le> r"
    and top: "threshold data (Fin r) (PyInt 1) = Fin T"
  shows "0 < num_val tr \<Longrightarrow> sorted (map num_val (tr # cuts)) \<Longrightarrow>
     num_val (last (tr # cuts)) \<le> 1 \<Longrightarrow>
     mset (index (concat (ranges_loop fr data (Fin r) tr cuts))) =
     mset (index (filter (\<lambda>(k, v). flt (Fin (cut_at m r (num_val tr))) v \<and>
                                   fle v (Fin (cut_at m r (num_val (last (tr # cuts)))))) data))"
proof (induction cuts arbitrary: tr)
  case Nil
  have "filter (\<lambda>(k, v). flt (Fin (cut_at m r (num_val tr))) v \<and>
                          fle v (Fin (cut_at m r (num_val tr)))) data = []"
    by (auto simp: filter_empty_conv dest: flt_not_fle)
  then show ?case by (simp add: index_def)
next
  case (Cons c cs)
  have c0: "0 < num_val c" and le: "num_val tr \<le> num_val c"
    and srt: "sorted (map num_val (c # cs))"
    using Cons.prems by auto
  have lst: "num_val (last (c # cs)) \<le> 1" using Cons.prems(3) by simp
  have lastge: "num_val c \<le> num_val (last (c # cs))"
    using srt by (cases "cs = []") auto
  have tr1: "num_val tr \<le> 1" and c1: "num_val c \<le> 1"
    using le lastge lst by auto
  let ?a = "cut_at m r (num_val tr)"
  let ?b = "cut_at m r (num_val c)"
  let ?z = "cut_at m r (num_val (last (c # cs)))"
  have ab: "?a \<le> ?b" and bz: "?b \<le> ?z"
    using le lastge r by (auto intro: cut_at_mono)
  have ta: "threshold data (Fin r) tr = Fin ?a"
    using Cons.prems(1) tr1 by (intro threshold_Fin[OF m fm r top]) auto
  have tb: "threshold data (Fin r) c = Fin ?b"
    using c0 c1 by (intro threshold_Fin[OF m fm r top]) auto
  have IH: "mset (index (concat (ranges_loop fr data (Fin r) c cs))) =
     mset (index (filter (\<lambda>(k, v). flt (Fin ?b) v \<and> fle v (Fin ?z)) data))"
    using Cons.IH[OF c0 srt lst] .
  have split: "mset (index (filter (\<lambda>(k, v). flt (Fin ?a) v \<and> fle v (Fin ?b)) data)) +
        mset (index (filter (\<lambda>(k, v). flt (Fin ?b) v \<and> fle v (Fin ?z)) data)) =
        mset (index (filter (\<lambda>(k, v). flt (Fin ?a) v \<and> fle v (Fin ?z)) data))"
    unfolding index_def
    by (rule mset_filter_split) (use flt_split[OF ab bz] in \<open>auto simp: case_prod_beta\<close>)
  have "mset (index (concat (ranges_loop fr data (Fin r) tr (c # cs)))) =
        mset (index (filter (\<lambda>(k, v). flt (Fin ?a) v \<and> fle v (Fin ?b)) data)) +
        mset (index (concat (ranges_loop fr data (Fin r) c cs)))"
    using Cons.prems(1) by (simp add: ta tb index_concat index_append index_label Let_def)
  then show ?case using IH split by simp
qed

lemma sorted_hd_le_last:
  fixes f :: "'a \<Rightarrow> rat"
  shows "sorted (map f (c # cs)) \<Longrightarrow> f c \<le> f (last (c # cs))"
  by (cases "cs = []") auto

lemma no_nan_D: "no_nan data \<Longrightarrow> (k, v) \<in> set data \<Longrightarrow> v \<noteq> NaN"
  by (auto simp: no_nan_def list_all_iff)

lemma cuts_facts:
  assumes "\<forall>p\<in>set ps. 0 < p \<and> p < (1::rat)"
  shows "sorted (map num_val (map PyFloat (sort ps) @ [PyInt 1]))"
    and "\<forall>c\<in>set (map PyFloat (sort ps) @ [PyInt 1]). 0 < num_val c"
    and "num_val (last (map PyFloat (sort ps) @ [PyInt 1])) = 1"
proof -
  have "map num_val (map PyFloat (sort ps) @ [PyInt 1]) = sort ps @ [1]"
    by (simp add: comp_def)
  moreover have "sorted (sort ps @ [1])"
    using assms by (auto simp: sorted_append less_imp_le)
  ultimately show "sorted (map num_val (map PyFloat (sort ps) @ [PyInt 1]))" by simp
  show "\<forall>c\<in>set (map PyFloat (sort ps) @ [PyInt 1]). 0 < num_val c"
    using assms by auto
  show "num_val (last (map PyFloat (sort ps) @ [PyInt 1])) = 1" by simp
qed

lemma to_linear_ranges_mset:
  assumes nn: "no_nan data" and fv: "float64_values data"
    and ps: "\<forall>p\<in>set ps. 0 < p \<and> p < 1"
    and top: "threshold data (fsub (series_max data) (series_min data)) (PyInt 1) = Fin T"
    and cover: "fle (series_max data) (Fin T)"
  shows "mset (index (to_linear_ranges fr data ps)) = mset (index data)"
proof -
  obtain m y where smin: "series_min data = Fin m"
    and mul: "fmul (fsub (series_max data) (series_min data)) (Fin 1) = Fin y"
    using top unfolding threshold_def num_val.simps of_int_1 by (rule fadd_Fin)
  obtain r where dr: "fsub (series_max data) (series_min data) = Fin r"
    using mul by (rule fmul_Fin_1)
  obtain M m' where smax: "series_max data = Fin M" and "series_min data = Fin m'"
    and pr: "pack (M - m') = Fin r"
    using dr by (rule fsub_Fin)
  then have pr: "pack (M - m) = Fin r" using smin by simp
  have mM: "m \<le> M" using smin smax by (rule series_min_le_max)
  have r0: "0 \<le> r"
    using round53_nonneg[of "M - m"] mM pack_Fin[OF pr] by simp
  have fm: "is_float64 m" using smin fv by (rule series_min_float64)
  have rm: "round53 m = m" using pack_Fin[OF pack_float64[OF fm]] by simp
  have top': "threshold data (Fin r) (PyInt 1) = Fin T" using top by (simp only: dr)
  have t1: "threshold data (Fin r) (PyInt 1) = Fin (cut_at m r 1)"
    using threshold_Fin[OF smin fm r0 top', of "PyInt 1"] by simp
  have T: "T = cut_at m r 1" using top' t1 by simp
  have topM: "M \<le> cut_at m r 1" using cover by (simp add: smax T)
  let ?cuts = "map PyFloat (sort ps) @ [PyInt 1]"
  obtain c1 cs where cuts: "?cuts = c1 # cs" by (cases ?cuts) auto
  have srt: "sorted (map num_val (c1 # cs))"
    and pos: "\<forall>c\<in>set (c1 # cs). 0 < num_val c"
    and lst: "num_val (last (c1 # cs)) = 1"
    using cuts_facts[OF ps] unfolding cuts by auto
  have c1: "0 < num_val c1" using pos by simp
  let ?b = "cut_at m r (num_val c1)"
  let ?z = "cut_at m r 1"
  have mb: "m \<le> ?b" using cut_at_mono[OF r0, of 0 "num_val c1" m] c1 by (simp add: cut_at_0[OF rm])
  have c1le: "num_val c1 \<le> 1"
    using sorted_hd_le_last[OF srt] lst by simp
  have bz: "?b \<le> ?z" using c1le r0 by (rule cut_at_mono[rotated])
  have t0: "threshold data (Fin r) (PyInt 0) = Fin m"
    using threshold_Fin[OF smin fm r0 top', of "PyInt 0"] by (simp add: cut_at_0[OF rm])
  have tb: "threshold data (Fin r) c1 = Fin ?b"
    using c1 c1le by (intro threshold_Fin[OF smin fm r0 top']) auto
  have rest: "mset (index (concat (ranges_loop fr data (Fin r) c1 cs))) =
     mset (index (filter (\<lambda>(k, v). flt (Fin ?b) v \<and> fle v (Fin ?z)) data))"
    using ranges_loop_mset[OF smin fm r0 top' c1 srt, of fr] by (simp only: lst order_refl)
  have split: "mset (index (filter (\<lambda>(k, v). fle (Fin m) v \<and> fle v (Fin ?b)) data)) +
        mset (index (filter (\<lambda>(k, v). flt (Fin ?b) v \<and> fle v (Fin ?z)) data)) =
        mset (index (filter (\<lambda>(k, v). fle (Fin m) v \<and> fle v (Fin ?z)) data))"
    unfolding index_def
    by (rule mset_filter_split) (use fle_split[OF mb bz] in \<open>auto simp: case_prod_beta\<close>)
  have all: "filter (\<lambda>(k, v). fle (Fin m) v \<and> fle v (Fin ?z)) data = data"
  proof -
    have "fle (Fin m) v \<and> fle v (Fin ?z)" if kv: "(k, v) \<in> set data" for k v
    proof -
      have v: "v \<noteq> NaN" using nn kv by (rule no_nan_D)
      have "fle (Fin m) v" using series_min_le[OF kv v] by (simp only: smin)
      moreover have "fle v (Fin ?z)"
        using fle_trans[OF series_max_ge[OF kv v] cover] by (simp only: T)
      ultimately show ?thesis by simp
    qed
    then show ?thesis by (auto simp: filter_id_conv)
  qed
  have "mset (index (to_linear_ranges fr data ps)) =
        mset (index (filter (\<lambda>(k, v). fle (Fin m) v \<and> fle v (Fin ?b)) data)) +
        mset (index (concat (ranges_loop fr data (Fin r) c1 cs)))"
    by (simp add: to_linear_ranges_def dr cuts t0 tb index_concat index_append index_label Let_def)
  then show ?thesis using rest split all by simp
qed

lemma samples_iff: "k \<in> samples out l \<longleftrightarrow> (k, l) \<in> set out"
  by (auto simp: samples_def index_def image_iff)



text \<open>
  Claim C5.  For \<^verbatim>\<open>data = [0, 25, 50, 75, 100]\<close> (samples 0 to 4) and
  \<^verbatim>\<open>ps = [0.5]\<close> the samples with values 0, 25 and 50 get the label
  \<^verbatim>\<open>"0p<x<0.5p"\<close> and the samples with values 75 and 100 the label \<^verbatim>\<open>"0.5p<x<1p"\<close>.
\<close>

theorem to_linear_ranges_example:
  "to_linear_ranges repr_decimal
     [(0::nat, Fin 0), (1, Fin 25), (2, Fin 50), (3, Fin 75), (4, Fin 100)] [1 / 2] =
   [(0, ''0p<x<0.5p''), (1, ''0p<x<0.5p''), (2, ''0p<x<0.5p''),
    (3, ''0.5p<x<1p''), (4, ''0.5p<x<1p'')]"
  by code_simp

text \<open>
  When the top threshold, as computed, is finite and not below the maximum, the groups
  do partition the index: for a series of \<^verbatim>\<open>float64\<close> values with no NaN and distinct
  index labels, and cut points that are fractions in (0,1), the union of the samples
  over all labels is the full index, and the sample sets of two different labels are
  disjoint.
\<close>

lemma to_linear_ranges_partition:
  assumes "no_nan data" and "float64_values data" and "distinct (index data)"
    and "\<forall>p\<in>set ps. 0 < p \<and> p < 1"
    and "threshold data (fsub (series_max data) (series_min data)) (PyInt 1) = Fin T"
    and "fle (series_max data) (Fin T)"
  shows "(\<Union>l. samples (to_linear_ranges fr data ps) l) = set (index data) \<and>
         (\<forall>l l'. l \<noteq> l' \<longrightarrow>
            samples (to_linear_ranges fr data ps) l \<inter>
            samples (to_linear_ranges fr data ps) l' = {})"
proof -
  let ?out = "to_linear_ranges fr data ps"
  have ms: "mset (index ?out) = mset (index data)"
    using assms(1,2,4,5,6) by (rule to_linear_ranges_mset)
  have s: "set (index ?out) = set (index data)" using ms by (rule mset_eq_setD)
  have d: "distinct (map fst ?out)"
    using ms assms(3) mset_eq_imp_distinct_iff[OF ms] by (simp add: index_def)
  have "(\<Union>l. samples ?out l) = set (index ?out)"
    by (force simp: samples_iff index_def image_iff)
  moreover have "samples ?out l \<inter> samples ?out l' = {}" if "l \<noteq> l'" for l l'
    using that eq_key_imp_eq_value[OF d] by (auto simp: samples_iff)
  ultimately show ?thesis using s by simp
qed

text \<open>
  Claim C4 fails on the code.  The top threshold is computed as
  \<^verbatim>\<open>data.min() + (data.max() - data.min()) * 1\<close> in floating point and can fall below
  the maximum.  For \<^verbatim>\<open>data = [-3.0, 0.3]\<close> and \<^verbatim>\<open>ps = [0.5]\<close> the range rounds to
  \<^verbatim>\<open>3.3\<close>, the top threshold is \<^verbatim>\<open>0.2999999999999998\<close>, and the sample with value
  \<^verbatim>\<open>0.3\<close> is in no group: the groups do not cover the index.
\<close>

theorem to_linear_ranges_drops_maximum:
  "no_nan [(0::nat, float64 (- 3)), (1, float64 (3 / 10))] \<and>
   float64_values [(0::nat, float64 (- 3)), (1, float64 (3 / 10))] \<and>
   list_all (\<lambda>p. 0 < p \<and> p < 1) [1 / 2 :: rat] \<and>
   threshold [(0::nat, float64 (- 3)), (1, float64 (3 / 10))]
     (fsub (float64 (3 / 10)) (float64 (- 3))) (PyInt 1) =
     Fin (337769972052787 / 1125899906842624) \<and>
   float64 (3 / 10) = Fin (5404319552844595 / 18014398509481984) \<and>
   to_linear_ranges repr_decimal [(0::nat, float64 (- 3)), (1, float64 (3 / 10))] [1 / 2] =
     [(0, ''0p<x<0.5p'')] \<and>
   (\<Union>l. samples (to_linear_ranges repr_decimal
                    [(0::nat, float64 (- 3)), (1, float64 (3 / 10))] [1 / 2]) l) \<noteq>
   set (index [(0::nat, float64 (- 3)), (1, float64 (3 / 10))])"
proof -
  let ?D = "[(0::nat, float64 (- 3)), (1, float64 (3 / 10))]"
  have a: "no_nan ?D" by code_simp
  have b: "float64_values ?D" by code_simp
  have c: "list_all (\<lambda>p. 0 < p \<and> p < 1) [1 / 2 :: rat]" by simp
  have t: "threshold ?D (fsub (float64 (3 / 10)) (float64 (- 3))) (PyInt 1) =
      Fin (337769972052787 / 1125899906842624)"
    by code_simp
  have f: "float64 (3 / 10) = Fin (5404319552844595 / 18014398509481984)" by code_simp
  have d: "to_linear_ranges repr_decimal ?D [1 / 2] = [(0, ''0p<x<0.5p'')]" by code_simp
  have "1 \<notin> (\<Union>l. samples [(0::nat, ''0p<x<0.5p'')] l)"
    by (simp add: samples_iff)
  moreover have "1 \<in> set (index ?D)" by (simp add: index_def)
  ultimately have e: "(\<Union>l. samples [(0::nat, ''0p<x<0.5p'')] l) \<noteq> set (index ?D)" by metis
  show ?thesis using a b c t f d e by (simp only: simp_thms)
qed





section \<open>Facts about the pair counts\<close>

lemma indicator_sum_notin:
  "a \<notin> set xs \<Longrightarrow> (\<Sum>x\<leftarrow>xs. if a = x then 1 else 0) = (0::int)"
  by (induction xs) auto

lemma indicator_sum:
  "distinct xs \<Longrightarrow> a \<in> set xs \<Longrightarrow> (\<Sum>x\<leftarrow>xs. if a = x then 1 else 0) = (1::int)"
  by (induction xs) (auto simp: indicator_sum_notin)

lemma indicator_sum0: "(\<Sum>x\<leftarrow>xs. if False then 1 else 0) = (0::int)"
  by (induction xs) auto

lemma count_by_key:
  assumes "distinct xs" and "\<forall>p\<in>set ps. Q p \<longrightarrow> f p \<in> set xs"
  shows "(\<Sum>x\<leftarrow>xs. int (length (filter (\<lambda>p. f p = x \<and> Q p) ps))) = int (length (filter Q ps))"
  using assms(2)
proof (induction ps)
  case Nil
  then show ?case by (induction xs) auto
next
  case (Cons p ps)
  have "(\<Sum>x\<leftarrow>xs. int (length (filter (\<lambda>p. f p = x \<and> Q p) (p # ps)))) =
        (\<Sum>x\<leftarrow>xs. (if f p = x \<and> Q p then 1 else 0) + int (length (filter (\<lambda>p. f p = x \<and> Q p) ps)))"
    by (intro arg_cong[where f = sum_list] map_cong) auto
  also have "\<dots> = (\<Sum>x\<leftarrow>xs. if f p = x \<and> Q p then 1 else 0) +
        (\<Sum>x\<leftarrow>xs. int (length (filter (\<lambda>p. f p = x \<and> Q p) ps)))"
    by (simp add: sum_list_addf)
  also have "(\<Sum>x\<leftarrow>xs. if f p = x \<and> Q p then 1 else 0) = (if Q p then 1 else (0::int))"
  proof (cases "Q p")
    case True
    then have "f p \<in> set xs" using Cons.prems by simp
    then show ?thesis using True indicator_sum[OF assms(1), of "f p"] by simp
  next
    case False
    then show ?thesis by (simp add: indicator_sum0)
  qed
  also have "(\<Sum>x\<leftarrow>xs. int (length (filter (\<lambda>p. f p = x \<and> Q p) ps))) = int (length (filter Q ps))"
    using Cons by simp
  finally show ?case by simp
qed

lemma DataFrame2_same:
  "index a = index b \<Longrightarrow>
     DataFrame2 a b = Inr (map (\<lambda>((k, x), (k', y)). (k, (x, y))) (zip a b))"
  by (simp add: DataFrame2_def)

lemma assign_N_ones:
  "assign_N df (item_series n (HasIndex (index df))) = map (\<lambda>(k, (x, y)). (k, (x, y, n))) df"
  by (induction df) (auto simp: assign_N_def index_def)

lemma zip_same_index:
  "length a = length b \<Longrightarrow>
     map snd (map (\<lambda>((k, x), (k', y)). (k, (x, y))) (zip a b)) = zip (map snd a) (map snd b)"
  by (induction a b rule: list_induct2) auto

lemma groups_ones:
  "groups (map (\<lambda>(k, (x, y)). (k, (x, y, n))) df) =
     List.map_filter (\<lambda>(x, y). case (x, y) of (Some c, Some r) \<Rightarrow> Some (r, c, n) | _ \<Rightarrow> None)
       (map snd df)"
  by (induction df) (auto simp: groups_def split: option.splits)

lemma complete_filter:
  "length (filter (\<lambda>(r', c', m). r' = r \<and> c' = c) (complete_rows n ps)) =
     length (filter (\<lambda>(x, y). x = Some c \<and> y = Some r) ps)"
  by (induction ps) (auto simp: complete_rows_def split: option.splits)

lemma complete_length:
  "length (complete_rows n ps) = length (filter (\<lambda>(x, y). x \<noteq> None \<and> y \<noteq> None) ps)"
  by (induction ps) (auto simp: complete_rows_def split: option.splits)

lemma complete_ones: "set (map (snd \<circ> snd) (complete_rows n ps)) \<subseteq> {n}"
  by (induction ps) (auto simp: complete_rows_def split: option.splits)

lemma sum_list_ones:
  "set ns \<subseteq> {1::int} \<Longrightarrow> sum_list ns = int (length ns)"
  by (induction ns) auto

lemma cell_fill:
  assumes "set (map (snd \<circ> snd) g) \<subseteq> {1::int}"
  shows "(case (case filter P g of [] \<Rightarrow> None | ns \<Rightarrow> Some (sum_list (map (snd \<circ> snd) ns))) of
            None \<Rightarrow> 0 | Some n \<Rightarrow> n) = int (length (filter P g))"
proof (cases "filter P g")
  case Nil
  then show ?thesis by simp
next
  case (Cons a list)
  have "set (map (snd \<circ> snd) (filter P g)) \<subseteq> {1}" using assms by auto
  then have "sum_list (map (snd \<circ> snd) (filter P g)) = int (length (filter P g))"
    using sum_list_ones[of "map (snd \<circ> snd) (filter P g)"] by simp
  then show ?thesis using Cons by simp
qed

lemma grid_total:
  fixes g :: "('v::linorder \<times> 'v \<times> int) list"
  shows "(\<Sum>r\<leftarrow>sort (remdups (map fst g)).
           \<Sum>c\<leftarrow>sort (remdups (map (fst \<circ> snd) g)).
             int (length (filter (\<lambda>(r', c', n). r' = r \<and> c' = c) g))) = int (length g)"
proof -
  let ?rs = "sort (remdups (map fst g))"
  let ?cs = "sort (remdups (map (fst \<circ> snd) g))"
  have inner: "(\<Sum>c\<leftarrow>?cs. int (length (filter (\<lambda>(r', c', n). r' = r \<and> c' = c) g))) =
      int (length (filter (\<lambda>p. fst p = r) g))" for r
  proof -
    have eq: "\<And>c. (\<lambda>(r', c', n). r' = r \<and> c' = c) =
        (\<lambda>p :: 'v \<times> 'v \<times> int. (fst \<circ> snd) p = c \<and> fst p = r)"
      by (auto simp: fun_eq_iff)
    show ?thesis unfolding eq by (rule count_by_key) auto
  qed
  have "(\<Sum>r\<leftarrow>?rs. int (length (filter (\<lambda>p. fst p = r \<and> True) g))) =
      int (length (filter (\<lambda>p. True) g))"
    by (rule count_by_key) auto
  then have outer: "(\<Sum>r\<leftarrow>?rs. int (length (filter (\<lambda>p. fst p = r) g))) = int (length g)"
    by simp
  show ?thesis unfolding inner by (rule outer)
qed

lemma pivot_vectors_table:
  assumes idx: "index (svalues vec1) = index (svalues vec2)"
    and names: "col_name ''V1'' vec1 \<noteq> col_name ''V2'' vec2"
      "col_name ''V1'' vec1 \<noteq> ''N''" "col_name ''V2'' vec2 \<noteq> ''N''"
  shows "pivot_vectors vec1 vec2 =
     Inr \<lparr>columns_name = col_name ''V1'' vec1, index_name = col_name ''V2'' vec2,
          row_labels = sort (remdups (map fst (complete_rows 1 (paired vec1 vec2)))),
          col_labels = sort (remdups (map (fst \<circ> snd) (complete_rows 1 (paired vec1 vec2)))),
          cell_values =
            map (\<lambda>r. map (\<lambda>c. int (co_count vec1 vec2 c r))
                   (sort (remdups (map (fst \<circ> snd) (complete_rows 1 (paired vec1 vec2))))))
              (sort (remdups (map fst (complete_rows 1 (paired vec1 vec2)))))\<rparr>"
proof -
  let ?a = "svalues vec1" and ?b = "svalues vec2"
  let ?df = "map (\<lambda>((k, x), (k', y)). (k, (x, y))) (zip ?a ?b)"
  let ?g = "complete_rows 1 (paired vec1 vec2)"
  have len: "length ?a = length ?b"
    using arg_cong[OF idx, of length] by (simp add: index_def)
  have g: "groups (assign_N ?df (item_series 1 (HasIndex (index ?df)))) = ?g"
    by (simp only: assign_N_ones groups_ones zip_same_index[OF len] complete_rows_def paired_def)
  have cell: "(case (case filter (\<lambda>(r', c', n). r' = r \<and> c' = c) ?g of
                  [] \<Rightarrow> None | ns \<Rightarrow> Some (sum_list (map (snd \<circ> snd) ns))) of
                None \<Rightarrow> 0 | Some n \<Rightarrow> n) = int (co_count vec1 vec2 c r)" for r c
    unfolding co_count_def complete_filter[where n = 1 and r = r and c = c, symmetric]
    by (rule cell_fill) (rule complete_ones)
  have guard: "\<not> (col_name ''V1'' vec1 = col_name ''V2'' vec2 \<or>
      col_name ''V1'' vec1 = ''N'' \<or> col_name ''V2'' vec2 = ''N'')"
    using names by simp
  show ?thesis
    unfolding pivot_vectors_def Let_def if_not_P[OF guard] DataFrame2_same[OF idx]
      sum.case g pivot_table_def fillna_def pivot.select_convs map_map comp_def
      cell[unfolded comp_def]
    by (rule refl)
qed

lemma paired_all_present:
  assumes "no_missing vec1" and "no_missing vec2"
  shows "filter (\<lambda>(x, y). x \<noteq> None \<and> y \<noteq> None) (paired vec1 vec2) = paired vec1 vec2"
proof -
  have "x \<noteq> None \<and> y \<noteq> None" if "(x, y) \<in> set (paired vec1 vec2)" for x y
  proof -
    have "x \<in> snd ` set (svalues vec1)" "y \<in> snd ` set (svalues vec2)"
      using set_zip_leftD[OF that[unfolded paired_def]] set_zip_rightD[OF that[unfolded paired_def]]
      by auto
    then show ?thesis
      using assms by (auto simp: no_missing_def list_all_iff)
  qed
  then show ?thesis by (auto simp: filter_id_conv)
qed


text \<open>
  Claim C6, as the specification states it, fails: a sample with a missing value in
  either sequence is dropped by the grouping, so the cells sum to less than \<open>N\<close>.  Here
  \<open>N = 2\<close>, the first sequence misses its first value, and the one cell holds 1.
\<close>

theorem pivot_vectors_counts_counterexample:
  "index (svalues \<lparr>sname = None, svalues = [(0::nat, None), (1, Some ''a'')]\<rparr>) =
   index (svalues \<lparr>sname = None, svalues = [(0::nat, Some ''x''), (1, Some ''y'')]\<rparr>) \<and>
   length (svalues \<lparr>sname = None, svalues = [(0::nat, None), (1, Some ''a'')]\<rparr>) = 2 \<and>
   pivot_vectors \<lparr>sname = None, svalues = [(0::nat, None), (1, Some ''a'')]\<rparr>
                 \<lparr>sname = None, svalues = [(0::nat, Some ''x''), (1, Some ''y'')]\<rparr> =
     Inr \<lparr>columns_name = ''V1'', index_name = ''V2'', row_labels = [''y''],
          col_labels = [''a''], cell_values = [[1]]\<rparr> \<and>
   sum_list (map sum_list [[1::int]]) \<noteq> 2"
proof -
  have "pivot_vectors \<lparr>sname = None, svalues = [(0::nat, None), (1, Some ''a'')]\<rparr>
                 \<lparr>sname = None, svalues = [(0::nat, Some ''x''), (1, Some ''y'')]\<rparr> =
     Inr \<lparr>columns_name = ''V1'', index_name = ''V2'', row_labels = [''y''],
          col_labels = [''a''], cell_values = [[1]]\<rparr>"
    by (simp add: pivot_vectors_def col_name_def DataFrame2_def index_def assign_N_def
        groups_def pivot_table_def fillna_def)
  then show ?thesis by (simp add: index_def)
qed

text \<open>
  Claim C6, amended.  For two sequences with the same index, under different axis names
  other than \<^verbatim>\<open>'N'\<close>, \<^verbatim>\<open>pivot_vectors\<close> returns a full grid of integers: the cell of
  row label \<open>r\<close> and column label \<open>c\<close> is the number of samples with \<open>c\<close> in the first
  sequence and \<open>r\<close> in the second, so it is non-negative, and 0 when the two never
  occur together.  The cells sum to the number of samples with both values present,
  which is the length \<open>N\<close> when no value is missing.
\<close>

theorem pivot_vectors_counts:
  assumes "index (svalues vec1) = index (svalues vec2)"
    and "col_name ''V1'' vec1 \<noteq> col_name ''V2'' vec2"
    and "col_name ''V1'' vec1 \<noteq> ''N''" and "col_name ''V2'' vec2 \<noteq> ''N''"
  shows "\<exists>t. pivot_vectors vec1 vec2 = Inr t \<and>
    sum_list (map sum_list (cell_values t)) =
      int (length (filter (\<lambda>(x, y). x \<noteq> None \<and> y \<noteq> None) (paired vec1 vec2))) \<and>
    (no_missing vec1 \<and> no_missing vec2 \<longrightarrow>
       sum_list (map sum_list (cell_values t)) = int (length (svalues vec1))) \<and>
    length (cell_values t) = length (row_labels t) \<and>
    (\<forall>i<length (row_labels t).
       length (cell_values t ! i) = length (col_labels t) \<and>
       (\<forall>j<length (col_labels t).
          cell_values t ! i ! j = int (co_count vec1 vec2 (col_labels t ! j) (row_labels t ! i)) \<and>
          0 \<le> cell_values t ! i ! j \<and>
          (co_count vec1 vec2 (col_labels t ! j) (row_labels t ! i) = 0 \<longrightarrow>
             cell_values t ! i ! j = 0)))"
proof -
  let ?g = "complete_rows 1 (paired vec1 vec2)"
  let ?rs = "sort (remdups (map fst ?g))"
  let ?cs = "sort (remdups (map (fst \<circ> snd) ?g))"
  let ?t = "\<lparr>columns_name = col_name ''V1'' vec1, index_name = col_name ''V2'' vec2,
          row_labels = ?rs, col_labels = ?cs,
          cell_values = map (\<lambda>r. map (\<lambda>c. int (co_count vec1 vec2 c r)) ?cs) ?rs\<rparr>"
  have t: "pivot_vectors vec1 vec2 = Inr ?t"
    using assms by (rule pivot_vectors_table)
  have co: "int (co_count vec1 vec2 c r) =
      int (length (filter (\<lambda>(r', c', n). r' = r \<and> c' = c) ?g))" for c r
    by (simp only: co_count_def complete_filter)
  have "sum_list (map sum_list (cell_values ?t)) =
      (\<Sum>r\<leftarrow>?rs. \<Sum>c\<leftarrow>?cs. int (length (filter (\<lambda>(r', c', n). r' = r \<and> c' = c) ?g)))"
    unfolding pivot.select_convs map_map comp_def co by (rule refl)
  also have "\<dots> = int (length ?g)" by (rule grid_total)
  finally have total: "sum_list (map sum_list (cell_values ?t)) =
      int (length (filter (\<lambda>(x, y). x \<noteq> None \<and> y \<noteq> None) (paired vec1 vec2)))"
    by (simp only: complete_length)
  have len: "length (paired vec1 vec2) = length (svalues vec1)"
    using arg_cong[OF assms(1), of length] by (simp add: paired_def index_def)
  have full: "sum_list (map sum_list (cell_values ?t)) = int (length (svalues vec1))"
    if "no_missing vec1 \<and> no_missing vec2"
    using that total by (simp only: paired_all_present len)
  have shape: "length (cell_values ?t) = length (row_labels ?t)" by simp
  have cellv: "length (cell_values ?t ! i) = length (col_labels ?t) \<and>
       (\<forall>j<length (col_labels ?t).
          cell_values ?t ! i ! j = int (co_count vec1 vec2 (col_labels ?t ! j) (row_labels ?t ! i)) \<and>
          0 \<le> cell_values ?t ! i ! j \<and>
          (co_count vec1 vec2 (col_labels ?t ! j) (row_labels ?t ! i) = 0 \<longrightarrow>
             cell_values ?t ! i ! j = 0))"
    if "i < length (row_labels ?t)" for i
    using that by simp
  show ?thesis
    using t total full shape cellv by (intro exI[of _ ?t]) blast
qed

theorem pivot_vectors_counts_witness:
  "index (svalues \<lparr>sname = Some ''grade'',
        svalues = [(0::nat, Some ''a''), (1, Some ''b''), (2, Some ''a'')]\<rparr>) =
   index (svalues \<lparr>sname = None,
        svalues = [(0::nat, Some ''x''), (1, Some ''x''), (2, Some ''y'')]\<rparr>) \<and>
   (\<exists>t. pivot_vectors
      \<lparr>sname = Some ''grade'', svalues = [(0::nat, Some ''a''), (1, Some ''b''), (2, Some ''a'')]\<rparr>
      \<lparr>sname = None, svalues = [(0::nat, Some ''x''), (1, Some ''x''), (2, Some ''y'')]\<rparr> = Inr t \<and>
      sum_list (map sum_list (cell_values t)) = 3)"
proof -
  let ?v1 = "\<lparr>sname = Some ''grade'',
        svalues = [(0::nat, Some ''a''), (1, Some ''b''), (2, Some ''a'')]\<rparr>"
  let ?v2 = "\<lparr>sname = None,
        svalues = [(0::nat, Some ''x''), (1, Some ''x''), (2, Some ''y'')]\<rparr>"
  have a: "index (svalues ?v1) = index (svalues ?v2)" by (simp add: index_def)
  have b: "col_name ''V1'' ?v1 \<noteq> col_name ''V2'' ?v2" by (simp add: col_name_def)
  have c: "col_name ''V1'' ?v1 \<noteq> ''N''" by (simp add: col_name_def)
  have d: "col_name ''V2'' ?v2 \<noteq> ''N''" by (simp add: col_name_def)
  have n: "no_missing ?v1 \<and> no_missing ?v2" by (simp add: no_missing_def)
  from pivot_vectors_counts [OF a b c d] obtain t where
    "pivot_vectors ?v1 ?v2 = Inr t"
    "no_missing ?v1 \<and> no_missing ?v2 \<longrightarrow>
       sum_list (map sum_list (cell_values t)) = int (length (svalues ?v1))"
    by blast
  with n have "pivot_vectors ?v1 ?v2 = Inr t \<and> sum_list (map sum_list (cell_values t)) = 3"
    by simp
  with a show ?thesis by blast
qed

end
